theory Spec2Isabelle
  imports Main "HOL-Library.Word"
begin

unbundle bit_operations_syntax

section \<open>Common vocabulary\<close>

text \<open>
  The two drivers are MicroPython classes.  Python integers are \<open>int\<close>; the elements of
  a \<open>bytes\<close> or \<open>bytearray\<close> object are 8-bit words.  A method either returns or
  raises; in both cases the object it was called on is left in some state, so an outcome
  carries the state reached together with the exception, if any.
\<close>

type_synonym byte = "8 word"

datatype error = ValueError | RuntimeError | TypeError | IndexError | UnboundLocalError
  | AttributeError

datatype 'a outcome = Returned 'a | Raised error 'a

fun final :: "'a outcome \<Rightarrow> 'a" where
  "final (Returned s) = s"
| "final (Raised e s) = s"

fun raised :: "'a outcome \<Rightarrow> error option" where
  "raised (Returned s) = None"
| "raised (Raised e s) = Some e"

definition then_do :: "'a outcome \<Rightarrow> ('a \<Rightarrow> 'a outcome) \<Rightarrow> 'a outcome" where
  "then_do m f = (case m of Returned s \<Rightarrow> f s | Raised e s \<Rightarrow> Raised e s)"

text \<open>\<open>bytes(vs)\<close> of a sequence of integers: ValueError unless every one is in 0..255.\<close>

definition byte_val :: "int \<Rightarrow> bool" where
  "byte_val v = (0 \<le> v \<and> v < 256)"

definition bytes_of :: "int list \<Rightarrow> byte list option" where
  "bytes_of vs = (if list_all byte_val vs then Some (map word_of_int vs) else None)"

section \<open>xl9555.py: the 16-pin I2C GPIO expander\<close>

definition REG_OUTPUT_PORT0 :: int where "REG_OUTPUT_PORT0 = 0x02"
definition REG_CONFIG_PORT0 :: int where "REG_CONFIG_PORT0 = 0x06"
definition REG_CONFIG_PORT1 :: int where "REG_CONFIG_PORT1 = 0x07"
definition REG_OUTPUT_PORT1 :: int where "REG_OUTPUT_PORT1 = 0x03"
definition DEFAULT_ADDRESS :: int where "DEFAULT_ADDRESS = 0x20"

text \<open>
  The object state of \<open>XL9555\<close>: the device address, the two caches (Python lists of two
  integers) and, for the I2C handle, the log of \<open>writeto(address, payload)\<close> calls made so
  far.  The bus itself is assumed to accept every write.
\<close>

record xl9555 =
  address :: int
  output_cache :: "int list"
  config_cache :: "int list"
  i2c :: "(int \<times> byte list) list"

text \<open>\<open>_write_reg\<close>: \<open>self.i2c.writeto(self.address, bytes([reg, value]))\<close>.\<close>

definition xl_write_reg :: "xl9555 \<Rightarrow> int \<Rightarrow> int \<Rightarrow> xl9555 outcome" where
  "xl_write_reg x reg v =
     (case bytes_of [reg, v] of
        None \<Rightarrow> Raised ValueError x
      | Some bs \<Rightarrow> Returned (x\<lparr>i2c := i2c x @ [(address x, bs)]\<rparr>))"

text \<open>Item assignment \<open>xs[i] = v\<close> on a Python list: IndexError out of range.\<close>

definition config :: "xl9555 \<Rightarrow> int \<Rightarrow> int \<Rightarrow> xl9555 outcome" where
  "config x config0 config1 =
     (if length (config_cache x) < 2 then Raised IndexError x
      else
        let x1 = x\<lparr>config_cache := (config_cache x)[0 := config0]\<rparr>;
            x2 = x1\<lparr>config_cache := (config_cache x1)[1 := config1]\<rparr>
        in then_do (xl_write_reg x2 REG_CONFIG_PORT0 config0)
             (\<lambda>x3. xl_write_reg x3 REG_CONFIG_PORT1 config1))"

definition set_output :: "xl9555 \<Rightarrow> int \<Rightarrow> xl9555 outcome" where
  "set_output x v =
     (let port0 = v AND 0xFF;
          port1 = (drop_bit 8 v) AND 0xFF
      in if length (output_cache x) < 2 then Raised IndexError x
         else
           let x1 = x\<lparr>output_cache := (output_cache x)[0 := port0]\<rparr>;
               x2 = x1\<lparr>output_cache := (output_cache x1)[1 := port1]\<rparr>
           in then_do (xl_write_reg x2 REG_OUTPUT_PORT0 port0)
                (\<lambda>x3. xl_write_reg x3 REG_OUTPUT_PORT1 port1))"

text \<open>\<open>__init__\<close>: fresh caches, then \<open>config(0x03, 0xF0)\<close> and \<open>set_output(0xFFFF)\<close>.\<close>

definition xl_init :: "int \<Rightarrow> xl9555 outcome" where
  "xl_init addr =
     (let x = \<lparr>address = addr, output_cache = [0x00, 0x00], config_cache = [0xFF, 0xFF],
                i2c = []\<rparr>
      in then_do (config x 0x03 0xF0) (\<lambda>x1. set_output x1 0xFFFF))"

text \<open>
  \<open>write_pin(pin, value)\<close>.  \<open>value\<close> is only tested for truth, so it is a \<open>bool\<close> here.
  The port index is \<open>pin // 8\<close>, the bit \<open>pin % 8\<close>; the read-modify-write of the cache
  entry happens before the register write.
\<close>

definition write_pin :: "xl9555 \<Rightarrow> int \<Rightarrow> bool \<Rightarrow> xl9555 outcome" where
  "write_pin x pin v =
     (if \<not> (0 \<le> pin \<and> pin \<le> 15) then Raised ValueError x
      else
        let port = nat (pin div 8);
            bit_no = nat (pin mod 8)
        in if length (output_cache x) \<le> port then Raised IndexError x
           else
             let old = output_cache x ! port;
                 new = (if v then old OR (push_bit bit_no 1)
                        else old AND (NOT (push_bit bit_no 1)));
                 x1 = x\<lparr>output_cache := (output_cache x)[port := new]\<rparr>
             in xl_write_reg x1 (REG_OUTPUT_PORT0 + int port) (output_cache x1 ! port))"

text \<open>
  The state every successfully returning method leaves behind: two cache entries per
  list, each output entry a byte value.
\<close>

definition xl_valid :: "xl9555 \<Rightarrow> bool" where
  "xl_valid x = (length (output_cache x) = 2 \<and> list_all byte_val (output_cache x))"


section \<open>st7789v.py: the display driver\<close>

subsection \<open>Constants\<close>

definition ST7789_SLPOUT :: int where "ST7789_SLPOUT = 0x11"
definition ST7789_INVON :: int where "ST7789_INVON = 0x21"
definition ST7789_DISPON :: int where "ST7789_DISPON = 0x29"
definition ST7789_CASET :: int where "ST7789_CASET = 0x2A"
definition ST7789_RASET :: int where "ST7789_RASET = 0x2B"
definition ST7789_RAMWR :: int where "ST7789_RAMWR = 0x2C"
definition ST7789_COLMOD :: int where "ST7789_COLMOD = 0x3A"
definition ST7789_MADCTL :: int where "ST7789_MADCTL = 0x36"
definition COLOR_BLACK :: int where "COLOR_BLACK = 0x0000"
definition CHUNK :: nat where "CHUNK = 512"
definition pin_rst :: int where "pin_rst = 10"
definition pin_bl :: int where "pin_bl = 11"

subsection \<open>Driver state and what it does to its surroundings\<close>

text \<open>
  Everything the driver does to the outside is appended to a trace, in program order:
  levels driven on the chip-select and data/command pins, payloads handed to
  \<open>spi.write\<close>, \<open>time.sleep_ms\<close> delays, \<open>write_pin\<close> calls on the expander, and printed
  lines.  The SPI bus and the pins are assumed to accept every call.
\<close>

datatype event =
    CsInit | DcInit
  | Cs bool | Dc bool
  | SpiWrite "byte list"
  | SleepMs int
  | PinWrite int bool
  | Print string

text \<open>
  \<open>has_cs\<close> tells whether a chip-select pin was passed (\<open>cs\<close> is not \<open>None\<close>);
  \<open>xl9555_obj\<close> is the expander passed to the constructor, if any (\<open>_use_xl9555\<close> is
  its presence); \<open>buffer_allocs\<close> counts the bindings of \<open>self.buffer\<close> to a newly
  allocated bytearray.  \<open>rotation\<close>, \<open>w\<close> and \<open>h\<close> are first assigned by \<open>set_rotation\<close>,
  which the constructor reaches before anything reads them.
\<close>

record st7789v =
  width :: int
  height :: int
  has_cs :: bool
  buffer :: "byte list"
  buffer_allocs :: nat
  xl9555_obj :: "xl9555 option"
  rotation :: int
  w :: int
  h :: int
  trace :: "event list"

definition use_xl9555 :: "st7789v \<Rightarrow> bool" where
  "use_xl9555 d = (xl9555_obj d \<noteq> None)"

definition emit :: "st7789v \<Rightarrow> event list \<Rightarrow> st7789v" where
  "emit d evs = d\<lparr>trace := trace d @ evs\<rparr>"

text \<open>\<open>if self.cs: self.cs(level)\<close>\<close>

definition cs_events :: "st7789v \<Rightarrow> bool \<Rightarrow> event list" where
  "cs_events d level = (if has_cs d then [Cs level] else [])"

subsection \<open>Bus primitives\<close>

definition write_cmd :: "st7789v \<Rightarrow> int \<Rightarrow> st7789v outcome" where
  "write_cmd d cmd =
     (let d1 = emit d (cs_events d False @ [Dc False])
      in case bytes_of [cmd] of
           None \<Rightarrow> Raised ValueError d1
         | Some bs \<Rightarrow> Returned (emit d1 (SpiWrite bs # cs_events d1 True)))"

definition write_data :: "st7789v \<Rightarrow> byte list \<Rightarrow> st7789v outcome" where
  "write_data d bs =
     Returned (emit d (cs_events d False @ [Dc True, SpiWrite bs] @ cs_events d True))"

text \<open>\<open>_write_reg(reg, *data)\<close>: the data phase only when \<open>data\<close> is not empty.\<close>

definition write_reg :: "st7789v \<Rightarrow> int \<Rightarrow> int list \<Rightarrow> st7789v outcome" where
  "write_reg d reg data =
     then_do (write_cmd d reg)
       (\<lambda>d1. if data \<noteq> [] then
                (case bytes_of data of
                   None \<Rightarrow> Raised ValueError d1
                 | Some bs \<Rightarrow> write_data d1 bs)
              else Returned d1)"

subsection \<open>Peripheral control\<close>

text \<open>\<open>self._xl9555.write_pin(pin, v)\<close>, the expander being the class of xl9555.py.\<close>

definition xl_call :: "st7789v \<Rightarrow> int \<Rightarrow> bool \<Rightarrow> st7789v outcome" where
  "xl_call d pin v =
     (case xl9555_obj d of
        None \<Rightarrow> Raised AttributeError d
      | Some x \<Rightarrow>
          (case write_pin x pin v of
             Returned x1 \<Rightarrow> Returned (emit (d\<lparr>xl9555_obj := Some x1\<rparr>) [PinWrite pin v])
           | Raised e x1 \<Rightarrow> Raised e (emit (d\<lparr>xl9555_obj := Some x1\<rparr>) [PinWrite pin v])))"

definition sleep_ms :: "st7789v \<Rightarrow> int \<Rightarrow> st7789v outcome" where
  "sleep_ms d ms = Returned (emit d [SleepMs ms])"

definition reset :: "st7789v \<Rightarrow> st7789v outcome" where
  "reset d =
     (if use_xl9555 d then
        then_do (xl_call d pin_rst False) (\<lambda>d1.
        then_do (sleep_ms d1 100) (\<lambda>d2.
        then_do (xl_call d2 pin_rst True) (\<lambda>d3.
        sleep_ms d3 100)))
      else Raised RuntimeError d)"

definition backlight_warning :: string where
  "backlight_warning = ''Warning: Backlight control not available without XL9555''"

definition set_backlight :: "st7789v \<Rightarrow> bool \<Rightarrow> st7789v outcome" where
  "set_backlight d on =
     (if use_xl9555 d then xl_call d pin_bl on
      else Returned (emit d [Print backlight_warning]))"

subsection \<open>Orientation and windowing\<close>

definition set_rotation :: "st7789v \<Rightarrow> int \<Rightarrow> st7789v outcome" where
  "set_rotation d r =
     (let d1 = d\<lparr>rotation := r mod 4\<rparr>
      in if rotation d1 = 0 then
           write_reg (d1\<lparr>w := width d1, h := height d1\<rparr>) ST7789_MADCTL [0x00]
         else if rotation d1 = 1 then
           write_reg (d1\<lparr>w := height d1, h := width d1\<rparr>) ST7789_MADCTL [0x60]
         else if rotation d1 = 2 then
           write_reg (d1\<lparr>w := width d1, h := height d1\<rparr>) ST7789_MADCTL [0xC0]
         else if rotation d1 = 3 then
           write_reg (d1\<lparr>w := height d1, h := width d1\<rparr>) ST7789_MADCTL [0xA0]
         else Raised UnboundLocalError d1)"

definition set_window :: "st7789v \<Rightarrow> int \<Rightarrow> int \<Rightarrow> int \<Rightarrow> int \<Rightarrow> st7789v outcome" where
  "set_window d x y wd ht =
     (let x_start = x;
          x_end = x + wd - 1;
          y_start = y;
          y_end = y + ht - 1
      in then_do (write_reg d ST7789_CASET
                    [(drop_bit 8 x_start) AND 0xFF, x_start AND 0xFF,
                     (drop_bit 8 x_end) AND 0xFF, x_end AND 0xFF]) (\<lambda>d1.
         then_do (write_reg d1 ST7789_RASET
                    [(drop_bit 8 y_start) AND 0xFF, y_start AND 0xFF,
                     (drop_bit 8 y_end) AND 0xFF, y_end AND 0xFF]) (\<lambda>d2.
         write_cmd d2 ST7789_RAMWR)))"

subsection \<open>Refresh\<close>

text \<open>\<open>range(0, n, step)\<close> for a positive step.\<close>

definition range_step :: "nat \<Rightarrow> nat \<Rightarrow> nat list" where
  "range_step n step = map (\<lambda>k. k * step) [0..<(n + step - 1) div step]"

text \<open>
  The inner loop of \<open>show\<close>: for each \<open>j\<close>, \<open>chunk[j] = buf[i + j + 1]\<close> and then
  \<open>chunk[j + 1] = buf[i + j]\<close>; \<open>None\<close> is the IndexError of an index out of range.
\<close>

fun swap_pairs :: "byte list \<Rightarrow> nat \<Rightarrow> byte list \<Rightarrow> nat list \<Rightarrow> byte list option" where
  "swap_pairs buf i chunk [] = Some chunk"
| "swap_pairs buf i chunk (j # js) =
     (if i + j + 1 < length buf \<and> j < length chunk then
        (let chunk1 = chunk[j := buf ! (i + j + 1)]
         in if i + j < length buf \<and> j + 1 < length chunk1 then
              swap_pairs buf i (chunk1[j + 1 := buf ! (i + j)]) js
            else None)
      else None)"

text \<open>The outer loop, over the chunk offsets; \<open>c\<close> is the chunk size.\<close>

fun send_chunks :: "nat \<Rightarrow> st7789v \<Rightarrow> byte list \<Rightarrow> nat list \<Rightarrow> st7789v outcome" where
  "send_chunks c d buf [] = Returned d"
| "send_chunks c d buf (i # rest) =
     (let e = min (i + c) (length buf)
      in case swap_pairs buf i (replicate (e - i) 0) (range_step (e - i) 2) of
           None \<Rightarrow> Raised IndexError d
         | Some chunk \<Rightarrow> send_chunks c (emit d [SpiWrite chunk]) buf rest)"

text \<open>
  \<open>show\<close> with the chunk size as a parameter (a step of zero makes \<open>range\<close> raise).
  The chip-select pin is called without a test for its presence: with \<open>cs = None\<close> the
  call \<open>self.cs(0)\<close> raises TypeError.  The method \<open>show\<close> itself is \<open>show_display\<close>
  below.
\<close>

definition show_chunked :: "nat \<Rightarrow> st7789v \<Rightarrow> st7789v outcome" where
  "show_chunked c d =
     (let buf = buffer d;
          n = length buf
      in then_do (set_window d 0 0 (width d) (height d)) (\<lambda>d1.
           if \<not> has_cs d1 then Raised TypeError d1
           else
             let d2 = emit d1 [Cs False, Dc True]
             in if c = 0 then Raised ValueError d2
                else then_do (send_chunks c d2 buf (range_step n c))
                       (\<lambda>d3. Returned (emit d3 [Cs True]))))"

definition show_display :: "st7789v \<Rightarrow> st7789v outcome" where
  "show_display d = show_chunked CHUNK d"

subsection \<open>The pixel store\<close>

text \<open>
  Modelled from the spec: the base class \<open>framebuf.FrameBuffer\<close> (a MicroPython built-in,
  not under src/) in its RGB565 format over \<open>self.buffer\<close> with stride \<open>width\<close>.  Pixel
  (x, y) is the 16-bit value at byte offset \<open>(y * width + x) * 2\<close>, low byte first; the
  base class draws only inside the buffer bounds, and a rectangle of no extent draws nothing.
\<close>

definition fb_offset :: "st7789v \<Rightarrow> int \<Rightarrow> int \<Rightarrow> nat" where
  "fb_offset d x y = nat ((y * width d + x) * 2)"

definition in_bounds :: "st7789v \<Rightarrow> int \<Rightarrow> int \<Rightarrow> bool" where
  "in_bounds d x y = (0 \<le> x \<and> x < width d \<and> 0 \<le> y \<and> y < height d)"

definition fb_pixel :: "st7789v \<Rightarrow> int \<Rightarrow> int \<Rightarrow> int \<Rightarrow> st7789v" where
  "fb_pixel d x y c =
     (if in_bounds d x y then
        d\<lparr>buffer := (buffer d)[fb_offset d x y := word_of_int c,
                                fb_offset d x y + 1 := word_of_int (drop_bit 8 c)]\<rparr>
      else d)"

definition fb_get_pixel :: "st7789v \<Rightarrow> int \<Rightarrow> int \<Rightarrow> int option" where
  "fb_get_pixel d x y =
     (if in_bounds d x y then
        Some (uint (buffer d ! (fb_offset d x y + 1)) * 256 + uint (buffer d ! fb_offset d x y))
      else None)"

definition rect_coords :: "int \<Rightarrow> int \<Rightarrow> int \<Rightarrow> int \<Rightarrow> (int \<times> int) list" where
  "rect_coords x y wd ht =
     concat (map (\<lambda>py. map (\<lambda>px. (px, py)) [x..x + wd - 1]) [y..y + ht - 1])"

definition fb_fill_rect :: "st7789v \<Rightarrow> int \<Rightarrow> int \<Rightarrow> int \<Rightarrow> int \<Rightarrow> int \<Rightarrow> st7789v" where
  "fb_fill_rect d x y wd ht c =
     fold (\<lambda>p s. fb_pixel s (fst p) (snd p) c) (rect_coords x y wd ht) d"

text \<open>\<open>fill\<close> is inherited unchanged from the base class.\<close>

definition fill :: "st7789v \<Rightarrow> int \<Rightarrow> st7789v" where
  "fill d c = fb_fill_rect d 0 0 (width d) (height d) c"

text \<open>The two overrides of st7789v.py.\<close>

definition pixel :: "st7789v \<Rightarrow> int \<Rightarrow> int \<Rightarrow> int \<Rightarrow> st7789v" where
  "pixel d x y color =
     (if 0 \<le> x \<and> x < width d \<and> 0 \<le> y \<and> y < height d then fb_pixel d x y color else d)"

definition fill_rect :: "st7789v \<Rightarrow> int \<Rightarrow> int \<Rightarrow> int \<Rightarrow> int \<Rightarrow> int \<Rightarrow> st7789v" where
  "fill_rect d x y wd ht color =
     (if wd \<le> 0 \<or> ht \<le> 0 then d
      else
        let end_x = x + wd;
            end_y = y + ht;
            x1 = (if x < 0 then 0 else x);
            y1 = (if y < 0 then 0 else y);
            end_x1 = (if end_x > width d then width d else end_x);
            end_y1 = (if end_y > height d then height d else end_y)
        in fb_fill_rect d x1 y1 (end_x1 - x1) (end_y1 - y1) color)"

subsection \<open>Initialisation\<close>

definition init_display :: "st7789v \<Rightarrow> int \<Rightarrow> st7789v outcome" where
  "init_display d rot =
     then_do (if use_xl9555 d then
                then_do (xl_call d pin_rst False) (\<lambda>a.
                then_do (sleep_ms a 10) (\<lambda>b.
                then_do (xl_call b pin_rst True) (\<lambda>c.
                sleep_ms c 120)))
              else Returned d) (\<lambda>d1.
     then_do (write_cmd d1 ST7789_SLPOUT) (\<lambda>d2.
     then_do (sleep_ms d2 120) (\<lambda>d3.
     then_do (write_reg d3 ST7789_COLMOD [0x05]) (\<lambda>d4.
     then_do (write_cmd d4 ST7789_INVON) (\<lambda>d5.
     then_do (sleep_ms d5 10) (\<lambda>d6.
     then_do (set_rotation d6 rot) (\<lambda>d7.
     then_do (write_cmd d7 ST7789_DISPON) (\<lambda>d8.
     then_do (sleep_ms d8 100) (\<lambda>d9.
     then_do (set_backlight d9 True) (\<lambda>d10.
     show_display (fill d10 COLOR_BLACK)))))))))))"

text \<open>
  \<open>__init__\<close>: the pins are initialised, the frame buffer is allocated (\<open>bytearray\<close> of a
  negative size raises ValueError) and handed to the base class, the expander is
  recorded, and \<open>init_display\<close> runs.
\<close>

definition construct :: "bool \<Rightarrow> int \<Rightarrow> int \<Rightarrow> int \<Rightarrow> xl9555 option \<Rightarrow> st7789v outcome" where
  "construct cs wd ht rot xl =
     (let d0 = \<lparr>width = wd, height = ht, has_cs = cs, buffer = [], buffer_allocs = 0,
                 xl9555_obj = None, rotation = 0, w = 0, h = 0,
                 trace = (if cs then [CsInit] else []) @ [DcInit]\<rparr>
      in if wd * ht * 2 < 0 then Raised ValueError d0
         else
           let d1 = d0\<lparr>buffer := replicate (nat (wd * ht * 2)) 0, buffer_allocs := 1\<rparr>;
               d2 = d1\<lparr>xl9555_obj := xl\<rparr>
           in init_display d2 rot)"


section \<open>Vocabulary of the specification\<close>

text \<open>
  A bus transaction as the specification words it: chip-select, when present, asserted
  (low) before and released (high) after; data/command-select low for a command byte and
  high for a data payload.
\<close>

definition cmd_events :: "bool \<Rightarrow> byte \<Rightarrow> event list" where
  "cmd_events cs c =
     (if cs then [Cs False] else []) @ [Dc False, SpiWrite [c]] @ (if cs then [Cs True] else [])"

definition data_events :: "bool \<Rightarrow> byte list \<Rightarrow> event list" where
  "data_events cs bs =
     (if cs then [Cs False] else []) @ [Dc True, SpiWrite bs] @ (if cs then [Cs True] else [])"

text \<open>A big-endian 16-bit field: high byte first.  \<open>be16_value\<close> reads one back.\<close>

definition be16 :: "int \<Rightarrow> byte list" where
  "be16 v = [word_of_int (v div 256), word_of_int v]"

fun be16_value :: "byte list \<Rightarrow> int" where
  "be16_value [hi, lo] = uint hi * 256 + uint lo"
| "be16_value bs = 0"

text \<open>Swapping the bytes of every 2-byte group of a sequence.\<close>

fun swap2 :: "'a list \<Rightarrow> 'a list" where
  "swap2 (a # b # rest) = b # a # swap2 rest"
| "swap2 rest = rest"

text \<open>The pulse on the reset pin and the delays around it, as seen in the trace.\<close>

definition reset_pulse :: "int \<Rightarrow> int \<Rightarrow> event list" where
  "reset_pulse low_ms high_ms =
     [PinWrite pin_rst False, SleepMs low_ms, PinWrite pin_rst True, SleepMs high_ms]"

text \<open>
  A refresh as seen on the bus of a driver with a chip-select pin: the window set to the
  full frame, then one transaction holding the chunks as consecutive data writes.
\<close>

definition full_window_events :: "st7789v \<Rightarrow> event list" where
  "full_window_events d =
     cmd_events True 0x2A @ data_events True (be16 0 @ be16 (0 + width d - 1))
     @ cmd_events True 0x2B @ data_events True (be16 0 @ be16 (0 + height d - 1))
     @ cmd_events True 0x2C"

definition refresh_events :: "st7789v \<Rightarrow> byte list list \<Rightarrow> event list" where
  "refresh_events d chunks =
     full_window_events d @ [Cs False, Dc True] @ map SpiWrite chunks @ [Cs True]"

text \<open>
  The pixel store invariant, and what it means for a later state to hold the same store:
  same physical size, same single allocation, same length.
\<close>

definition store_invariant :: "st7789v \<Rightarrow> bool" where
  "store_invariant d = (length (buffer d) = nat (width d * height d * 2))"

definition same_store :: "st7789v \<Rightarrow> st7789v \<Rightarrow> bool" where
  "same_store d s =
     (width s = width d \<and> height s = height d \<and> buffer_allocs s = buffer_allocs d
      \<and> length (buffer s) = length (buffer d))"

text \<open>
  A later state of the same device: same store and same chip-select wiring.  With the same
  buffer contents as well, the pixels are the same.
\<close>

definition same_device :: "st7789v \<Rightarrow> st7789v \<Rightarrow> bool" where
  "same_device d s = (same_store d s \<and> has_cs s = has_cs d)"

definition same_pixels :: "st7789v \<Rightarrow> st7789v \<Rightarrow> bool" where
  "same_pixels d s = (same_device d s \<and> buffer s = buffer d)"

text \<open>
  What initialisation puts on the bus before the frame is cleared and refreshed, on a
  driver with a chip-select pin: the reset pulse when there is an expander, sleep-out,
  colour mode, inversion, addressing mode for the rotation, display-on, and the backlight
  (a pin write with an expander, a printed warning without).
\<close>

definition madctl_of :: "int \<Rightarrow> byte" where
  "madctl_of r = (if r mod 4 = 0 then 0x00 else if r mod 4 = 1 then 0x60
                  else if r mod 4 = 2 then 0xC0 else 0xA0)"

definition init_prefix :: "bool \<Rightarrow> int \<Rightarrow> event list" where
  "init_prefix expander rot =
     (if expander then reset_pulse 10 120 else [])
     @ cmd_events True 0x11 @ [SleepMs 120]
     @ cmd_events True 0x3A @ data_events True [0x05]
     @ cmd_events True 0x21 @ [SleepMs 10]
     @ cmd_events True 0x36 @ data_events True [madctl_of rot]
     @ cmd_events True 0x29 @ [SleepMs 100]
     @ (if expander then [PinWrite pin_bl True] else [Print backlight_warning])"

text \<open>The byte a 16-bit colour puts at a byte offset: low byte at even, high byte at odd.\<close>

definition color_byte :: "int \<Rightarrow> nat \<Rightarrow> byte" where
  "color_byte c k = (if even k then word_of_int c else word_of_int (drop_bit 8 c))"

text \<open>Membership of a pixel in the rectangle \<open>[x, x + wd) \<times> [y, y + ht)\<close>.\<close>

definition in_rect :: "int \<Rightarrow> int \<Rightarrow> int \<Rightarrow> int \<Rightarrow> int \<Rightarrow> int \<Rightarrow> bool" where
  "in_rect x y wd ht px py = (x \<le> px \<and> px < x + wd \<and> y \<le> py \<and> py < y + ht)"

section \<open>Example objects\<close>

text \<open>An expander as its constructor leaves it, at the default address.\<close>

definition xl_example :: xl9555 where
  "xl_example = \<lparr>address = 0x20, output_cache = [0xFF, 0xFF], config_cache = [0x03, 0xF0],
                  i2c = [(0x20, [0x06, 0x03]), (0x20, [0x07, 0xF0]),
                         (0x20, [0x02, 0xFF]), (0x20, [0x03, 0xFF])]\<rparr>"

text \<open>A 2 by 2 display with four distinct pixels, with and without its optional parts.\<close>

definition st_example :: "bool \<Rightarrow> xl9555 option \<Rightarrow> st7789v" where
  "st_example cs xl =
     \<lparr>width = 2, height = 2, has_cs = cs,
      buffer = [0x01, 0x02, 0x03, 0x04, 0x05, 0x06, 0x07, 0x08], buffer_allocs = 1,
      xl9555_obj = xl, rotation = 0, w = 2, h = 2, trace = []\<rparr>"

text \<open>A display of the reference size, 240 by 320, all black.\<close>

definition st_reference :: st7789v where
  "st_reference =
     \<lparr>width = 240, height = 320, has_cs = True,
      buffer = replicate 153600 0, buffer_allocs = 1,
      xl9555_obj = Some xl_example, rotation = 0, w = 240, h = 320, trace = []\<rparr>"

section \<open>Outcomes and byte values\<close>

lemma then_do_Returned: "then_do (Returned s) f = f s"
  by (simp add: then_do_def)

lemma then_do_Raised: "then_do (Raised e s) f = Raised e s"
  by (simp add: then_do_def)

lemma byte_val_mask: "byte_val (v AND 0xFF)"
  by (simp add: byte_val_def)

lemma byte_val_set_bit:
  assumes "byte_val a" "n < 8"
  shows "byte_val (a OR push_bit n 1)"
proof -
  have "(2::int) ^ n < 2 ^ 8" using assms(2) by (intro power_strict_increasing) simp_all
  hence "a OR push_bit n 1 < 2 ^ 8"
    using assms(1) by (intro OR_upper) (simp_all add: byte_val_def push_bit_eq_mult)
  thus ?thesis using assms(1) by (simp add: byte_val_def)
qed

lemma byte_val_clear_bit:
  assumes "byte_val a"
  shows "byte_val (a AND NOT (push_bit n 1))"
  using assms by (simp add: byte_val_def)

lemma bit_set_bit_int:
  "bit (a OR push_bit n (1::int)) k = (if k = n then True else bit a k)"
  by (auto simp add: bit_simps)

lemma bit_clear_bit_int:
  "bit (a AND NOT (push_bit n (1::int))) k = (if k = n then False else bit a k)"
  by (auto simp add: bit_simps)

section \<open>The expander: write_pin\<close>

lemma xl_write_reg_ok:
  "byte_val reg \<Longrightarrow> byte_val v \<Longrightarrow>
   xl_write_reg x reg v =
     Returned (x\<lparr>i2c := i2c x @ [(address x, [word_of_int reg, word_of_int v])]\<rparr>)"
  by (simp add: xl_write_reg_def bytes_of_def)

lemma write_pin_in_range:
  assumes "0 \<le> pin" "pin \<le> 15" "xl_valid x"
  shows "\<exists>new. write_pin x pin v =
           Returned (x\<lparr>output_cache := (output_cache x)[nat (pin div 8) := new],
                       i2c := i2c x @ [(address x, [word_of_int (REG_OUTPUT_PORT0 + pin div 8),
                                                    word_of_int new])]\<rparr>)
         \<and> byte_val new
         \<and> (\<forall>k. bit new k = (if k = nat (pin mod 8) then v
                              else bit (output_cache x ! nat (pin div 8)) k))"
proof -
  let ?port = "nat (pin div 8)" and ?b = "nat (pin mod 8)"
  let ?old = "output_cache x ! ?port"
  let ?new = "if v then ?old OR push_bit ?b 1 else ?old AND NOT (push_bit ?b 1)"
  have port: "?port < 2" using assms(1,2) by simp
  have len: "length (output_cache x) = 2" using assms(3) by (simp add: xl_valid_def)
  have old: "byte_val ?old"
    using assms(3) port by (simp add: xl_valid_def list_all_length)
  have b: "?b < 8" using assms(1) by simp
  have new: "byte_val ?new"
    using byte_val_set_bit [OF old b] byte_val_clear_bit [OF old, of ?b] by (cases v) simp_all
  have pd: "0 \<le> pin div 8" "pin div 8 \<le> 1" using assms(1,2) by auto
  have reg: "byte_val (REG_OUTPUT_PORT0 + int ?port)"
    using pd by (simp add: REG_OUTPUT_PORT0_def byte_val_def)
  have ip: "int ?port = pin div 8" using assms(1) by simp
  have "write_pin x pin v =
           Returned (x\<lparr>output_cache := (output_cache x)[?port := ?new],
                       i2c := i2c x @ [(address x, [word_of_int (REG_OUTPUT_PORT0 + pin div 8),
                                                    word_of_int ?new])]\<rparr>)"
    using assms(1,2) port len new reg
    by (simp add: write_pin_def Let_def xl_write_reg_ok ip del: nat_0_le)
  moreover have "\<forall>k. bit ?new k = (if k = ?b then v else bit ?old k)"
    using bit_set_bit_int [of ?old ?b] bit_clear_bit_int [of ?old ?b] by (cases v) simp_all
  ultimately show ?thesis using new by blast
qed

lemma write_pin_valid:
  assumes "0 \<le> pin" "pin \<le> 15" "xl_valid x"
  shows "\<exists>x1. write_pin x pin v = Returned x1 \<and> xl_valid x1"
proof -
  obtain new where r: "write_pin x pin v =
           Returned (x\<lparr>output_cache := (output_cache x)[nat (pin div 8) := new],
                       i2c := i2c x @ [(address x, [word_of_int (REG_OUTPUT_PORT0 + pin div 8),
                                                    word_of_int new])]\<rparr>)"
    and new: "byte_val new"
    using write_pin_in_range [OF assms] by blast
  have "list_all byte_val ((output_cache x)[nat (pin div 8) := new])"
    using assms(3) new set_update_subset_insert [of "output_cache x" "nat (pin div 8)" new]
    by (auto simp add: xl_valid_def list_all_iff)
  thus ?thesis using r assms(3) by (simp add: xl_valid_def)
qed

text \<open>
  Claim C10.  For a pin in 0..15, on an expander whose output cache holds two byte values,
  \<open>write_pin\<close> returns; the cache entry of port \<open>pin div 8\<close> differs from the old one in
  bit \<open>pin mod 8\<close> at most, which now has the given level; the other cache entry, the
  configuration cache and the address are as before; and exactly one I2C write is issued,
  of that port's output register (0x02 + port) with the new entry.  For any other pin it
  raises ValueError and the object, bus log included, is unchanged.
\<close>

theorem write_pin_frame:
  "(0 \<le> pin \<and> pin \<le> 15 \<and> xl_valid x \<longrightarrow>
      (\<exists>new. write_pin x pin v =
           Returned (x\<lparr>output_cache := (output_cache x)[nat (pin div 8) := new],
                       i2c := i2c x @ [(address x, [word_of_int (REG_OUTPUT_PORT0 + pin div 8),
                                                    word_of_int new])]\<rparr>)
         \<and> byte_val new
         \<and> (\<forall>k. bit new k = (if k = nat (pin mod 8) then v
                              else bit (output_cache x ! nat (pin div 8)) k)))
      \<and> config_cache (final (write_pin x pin v)) = config_cache x
      \<and> output_cache (final (write_pin x pin v)) ! (1 - nat (pin div 8))
          = output_cache x ! (1 - nat (pin div 8))
      \<and> length (i2c (final (write_pin x pin v))) = Suc (length (i2c x)))
   \<and> (\<not> (0 \<le> pin \<and> pin \<le> 15) \<longrightarrow> write_pin x pin v = Raised ValueError x)"
proof (intro conjI impI)
  assume a: "0 \<le> pin \<and> pin \<le> 15 \<and> xl_valid x"
  hence p: "0 \<le> pin" "pin \<le> 15" "xl_valid x" by simp_all
  from write_pin_in_range [OF p, of v]
  show "\<exists>new. write_pin x pin v =
           Returned (x\<lparr>output_cache := (output_cache x)[nat (pin div 8) := new],
                       i2c := i2c x @ [(address x, [word_of_int (REG_OUTPUT_PORT0 + pin div 8),
                                                    word_of_int new])]\<rparr>)
         \<and> byte_val new
         \<and> (\<forall>k. bit new k = (if k = nat (pin mod 8) then v
                              else bit (output_cache x ! nat (pin div 8)) k))" .
  from write_pin_in_range [OF p, of v] obtain new where r: "write_pin x pin v =
           Returned (x\<lparr>output_cache := (output_cache x)[nat (pin div 8) := new],
                       i2c := i2c x @ [(address x, [word_of_int (REG_OUTPUT_PORT0 + pin div 8),
                                                    word_of_int new])]\<rparr>)"
    by blast
  show "config_cache (final (write_pin x pin v)) = config_cache x" by (simp add: r)
  have "\<And>n::nat. n < 2 \<Longrightarrow> 1 - n \<noteq> n" by arith
  moreover have "nat (pin div 8) < 2" using p(1,2) by simp
  ultimately have "1 - nat (pin div 8) \<noteq> nat (pin div 8)" by blast
  thus "output_cache (final (write_pin x pin v)) ! (1 - nat (pin div 8))
          = output_cache x ! (1 - nat (pin div 8))"
    by (simp add: r)
  show "length (i2c (final (write_pin x pin v))) = Suc (length (i2c x))" by (simp add: r)
next
  assume "\<not> (0 \<le> pin \<and> pin \<le> 15)"
  thus "write_pin x pin v = Raised ValueError x" by (simp add: write_pin_def)
qed

theorem write_pin_frame_witness:
  "xl_valid xl_example
   \<and> write_pin xl_example 10 False =
       Returned (xl_example\<lparr>output_cache := [0xFF, 0xFB],
                             i2c := i2c xl_example @ [(0x20, [0x03, 0xFB])]\<rparr>)
   \<and> write_pin xl_example 16 True = Raised ValueError xl_example"
  using write_pin_frame [of 10 xl_example False] write_pin_frame [of 16 xl_example True]
  by (simp add: xl_example_def xl_valid_def byte_val_def write_pin_def xl_write_reg_def
      bytes_of_def REG_OUTPUT_PORT0_def Let_def)


section \<open>Bus transactions\<close>

lemma write_cmd_ok:
  "byte_val c \<Longrightarrow>
   write_cmd d c = Returned (emit d (cmd_events (has_cs d) (word_of_int c)))"
  by (simp add: write_cmd_def bytes_of_def emit_def cs_events_def cmd_events_def)

lemma write_data_ok:
  "write_data d bs = Returned (emit d (data_events (has_cs d) bs))"
  by (simp add: write_data_def emit_def cs_events_def data_events_def)

lemma emit_emit: "emit (emit d a) b = emit d (a @ b)"
  by (simp add: emit_def)

lemma has_cs_emit: "has_cs (emit d a) = has_cs d"
  by (simp add: emit_def)

lemma write_reg_ok:
  assumes "byte_val reg" "list_all byte_val data" "data \<noteq> []"
  shows "write_reg d reg data =
           Returned (emit d (cmd_events (has_cs d) (word_of_int reg)
                             @ data_events (has_cs d) (map word_of_int data)))"
  using assms
  by (simp add: write_reg_def write_cmd_ok then_do_Returned bytes_of_def write_data_ok
      emit_emit has_cs_emit)

lemma and_255_take_bit: "(v::int) AND 255 = take_bit 8 v"
  by (simp add: take_bit_eq_mask mask_eq_exp_minus_1)

lemma word_mask_lo: "(word_of_int (v AND 255) :: byte) = word_of_int v"
  by (simp add: and_255_take_bit word_of_int_eq_iff)

lemma drop_bit_8: "drop_bit 8 (v::int) = v div 256"
  by (simp add: drop_bit_eq_div)

lemma word_mask_hi: "(word_of_int (drop_bit 8 v AND 255) :: byte) = word_of_int (v div 256)"
proof -
  have "(word_of_int (take_bit 8 k) :: byte) = word_of_int k" for k
    by (simp add: word_of_int_eq_iff)
  thus ?thesis unfolding drop_bit_8 and_255_take_bit by (rule meta_spec)
qed

lemma be16_bytes:
  "map word_of_int [(drop_bit 8 v) AND 0xFF, v AND 0xFF] = be16 v"
  unfolding be16_def by (simp only: list.map word_mask_lo drop_bit_8)

lemma be16_value_be16:
  assumes "0 \<le> v" "v < 65536"
  shows "be16_value (be16 v) = v"
proof -
  have "uint (word_of_int (v div 256) :: byte) = v div 256"
    using assms by (simp add: uint_word_of_int take_bit_eq_mod)
  moreover have "uint (word_of_int v :: byte) = v mod 256"
    by (simp add: uint_word_of_int take_bit_eq_mod)
  ultimately show ?thesis by (simp add: be16_def)
qed

section \<open>Windowed addressing\<close>

lemma set_window_trace:
  "set_window d x y wd ht =
     Returned (emit d
       (cmd_events (has_cs d) 0x2A
        @ data_events (has_cs d) (be16 x @ be16 (x + wd - 1))
        @ cmd_events (has_cs d) 0x2B
        @ data_events (has_cs d) (be16 y @ be16 (y + ht - 1))
        @ cmd_events (has_cs d) 0x2C))"
proof -
  have px: "map word_of_int [(drop_bit 8 x) AND 0xFF, x AND 0xFF,
              (drop_bit 8 (x + wd - 1)) AND 0xFF, (x + wd - 1) AND 0xFF]
            = be16 x @ be16 (x + wd - 1)"
    unfolding be16_def by (simp only: list.map word_mask_lo drop_bit_8 append.simps)
  have py: "map word_of_int [(drop_bit 8 y) AND 0xFF, y AND 0xFF,
              (drop_bit 8 (y + ht - 1)) AND 0xFF, (y + ht - 1) AND 0xFF]
            = be16 y @ be16 (y + ht - 1)"
    unfolding be16_def by (simp only: list.map word_mask_lo drop_bit_8 append.simps)
  have ca: "write_reg d ST7789_CASET [(drop_bit 8 x) AND 0xFF, x AND 0xFF,
              (drop_bit 8 (x + wd - 1)) AND 0xFF, (x + wd - 1) AND 0xFF]
            = Returned (emit d (cmd_events (has_cs d) 0x2A
                @ data_events (has_cs d) (be16 x @ be16 (x + wd - 1))))"
    unfolding px [symmetric]
    by (subst write_reg_ok) (simp_all add: byte_val_mask ST7789_CASET_def byte_val_def)
  have ra: "\<And>s. write_reg s ST7789_RASET [(drop_bit 8 y) AND 0xFF, y AND 0xFF,
              (drop_bit 8 (y + ht - 1)) AND 0xFF, (y + ht - 1) AND 0xFF]
            = Returned (emit s (cmd_events (has_cs s) 0x2B
                @ data_events (has_cs s) (be16 y @ be16 (y + ht - 1))))"
    unfolding py [symmetric]
    by (subst write_reg_ok) (simp_all add: byte_val_mask ST7789_RASET_def byte_val_def)
  have rw: "\<And>s. write_cmd s ST7789_RAMWR = Returned (emit s (cmd_events (has_cs s) 0x2C))"
    by (subst write_cmd_ok) (simp_all add: ST7789_RAMWR_def byte_val_def)
  show ?thesis
    unfolding set_window_def Let_def
    by (simp only: ca ra rw then_do_Returned emit_emit has_cs_emit append_assoc)
qed

text \<open>
  Claim C5.  For every driver state and all integers x, y, w, h, \<open>set_window\<close> returns,
  and what it appended to the trace is exactly three transactions in this order: command
  0x2A followed by the data payload of the big-endian 16-bit fields x and x + w - 1,
  command 0x2B followed by the payload of y and y + h - 1, and command 0x2C with no
  payload.  A field holds the low 16 bits of its value, so it reads back as the value
  itself when that is in 0..65535.  For \<open>set_window(10, 20, 30, 40)\<close> the payloads are
  00 0A 00 27 and 00 14 00 3B.
\<close>

theorem set_window_sequence:
  "set_window d x y wd ht =
     Returned (emit d
       (cmd_events (has_cs d) 0x2A
        @ data_events (has_cs d) (be16 x @ be16 (x + wd - 1))
        @ cmd_events (has_cs d) 0x2B
        @ data_events (has_cs d) (be16 y @ be16 (y + ht - 1))
        @ cmd_events (has_cs d) 0x2C))
   \<and> (\<forall>v. 0 \<le> v \<and> v < 65536 \<longrightarrow> be16_value (be16 v) = v)
   \<and> be16 10 @ be16 (10 + 30 - 1) = [0x00, 0x0A, 0x00, 0x27]
   \<and> be16 20 @ be16 (20 + 40 - 1) = [0x00, 0x14, 0x00, 0x3B]"
  using set_window_trace [of d x y wd ht] be16_value_be16
  by (simp add: be16_def)

theorem set_window_sequence_witness:
  "trace (final (set_window (st_example True None) 10 20 30 40)) =
     [Cs False, Dc False, SpiWrite [0x2A], Cs True,
      Cs False, Dc True, SpiWrite [0x00, 0x0A, 0x00, 0x27], Cs True,
      Cs False, Dc False, SpiWrite [0x2B], Cs True,
      Cs False, Dc True, SpiWrite [0x00, 0x14, 0x00, 0x3B], Cs True,
      Cs False, Dc False, SpiWrite [0x2C], Cs True]
   \<and> be16_value (be16 39) = 39"
  using set_window_sequence [of "st_example True None" 10 20 30 40]
  by (simp add: st_example_def emit_def cmd_events_def data_events_def be16_def)


section \<open>Orientation\<close>

lemma madctl_ok:
  assumes "byte_val code"
  shows "write_reg s ST7789_MADCTL [code] =
           Returned (emit s (cmd_events (has_cs s) 0x36
                             @ data_events (has_cs s) [word_of_int code]))"
  using assms by (subst write_reg_ok) (simp_all add: ST7789_MADCTL_def byte_val_def)

lemma set_rotation_result:
  "set_rotation d r =
     Returned (emit (d\<lparr>rotation := r mod 4,
                       w := (if r mod 4 = 0 \<or> r mod 4 = 2 then width d else height d),
                       h := (if r mod 4 = 0 \<or> r mod 4 = 2 then height d else width d)\<rparr>)
       (cmd_events (has_cs d) 0x36
        @ data_events (has_cs d)
            [if r mod 4 = 0 then 0x00 else if r mod 4 = 1 then 0x60
             else if r mod 4 = 2 then 0xC0 else 0xA0]))"
proof -
  have "0 \<le> r mod 4" "r mod 4 < 4" by simp_all
  hence "r mod 4 = 0 \<or> r mod 4 = 1 \<or> r mod 4 = 2 \<or> r mod 4 = 3" by arith
  thus ?thesis
    by (elim disjE) (simp_all add: set_rotation_def Let_def madctl_ok byte_val_def)
qed

text \<open>
  Claim C4.  For every integer r, \<open>set_rotation\<close> returns with \<open>rotation = r mod 4\<close>
  and sends register 0x36 with exactly one payload byte: 0x00, 0x60, 0xC0 or 0xA0 for
  rotation 0, 1, 2 or 3.  On a 240 by 320 display the logical size (w, h) becomes
  (240, 320) for rotations 0 and 2 and (320, 240) for rotations 1 and 3.  The frame
  buffer, its allocation count and the physical width and height are as before.
\<close>

theorem set_rotation_table:
  "width d = 240 \<and> height d = 320 \<longrightarrow>
   (\<exists>s. set_rotation d r = Returned s
      \<and> rotation s = r mod 4
      \<and> trace s = trace d @ cmd_events (has_cs d) 0x36
                   @ data_events (has_cs d)
                       [if r mod 4 = 0 then 0x00 else if r mod 4 = 1 then 0x60
                        else if r mod 4 = 2 then 0xC0 else 0xA0]
      \<and> (w s, h s) = (if r mod 4 = 0 \<or> r mod 4 = 2 then (240, 320) else (320, 240))
      \<and> r mod 4 \<in> {0, 1, 2, 3}
      \<and> buffer s = buffer d \<and> buffer_allocs s = buffer_allocs d
      \<and> width s = 240 \<and> height s = 320)"
proof
  assume a: "width d = 240 \<and> height d = 320"
  have "0 \<le> r mod 4" "r mod 4 < 4" by simp_all
  hence m: "r mod 4 = 0 \<or> r mod 4 = 1 \<or> r mod 4 = 2 \<or> r mod 4 = 3" by arith
  show "\<exists>s. set_rotation d r = Returned s
      \<and> rotation s = r mod 4
      \<and> trace s = trace d @ cmd_events (has_cs d) 0x36
                   @ data_events (has_cs d)
                       [if r mod 4 = 0 then 0x00 else if r mod 4 = 1 then 0x60
                        else if r mod 4 = 2 then 0xC0 else 0xA0]
      \<and> (w s, h s) = (if r mod 4 = 0 \<or> r mod 4 = 2 then (240, 320) else (320, 240))
      \<and> r mod 4 \<in> {0, 1, 2, 3}
      \<and> buffer s = buffer d \<and> buffer_allocs s = buffer_allocs d
      \<and> width s = 240 \<and> height s = 320"
    using a m by (simp add: set_rotation_result emit_def)
qed

theorem set_rotation_table_witness:
  "width st_reference = 240 \<and> height st_reference = 320
   \<and> trace (final (set_rotation st_reference 7)) =
       [Cs False, Dc False, SpiWrite [0x36], Cs True,
        Cs False, Dc True, SpiWrite [0xA0], Cs True]
   \<and> w (final (set_rotation st_reference 7)) = 320
   \<and> h (final (set_rotation st_reference 7)) = 240
   \<and> rotation (final (set_rotation st_reference (- 3))) = 1"
proof -
  have a: "width st_reference = 240 \<and> height st_reference = 320"
    by (simp add: st_reference_def)
  have t: "trace st_reference = []" "has_cs st_reference" by (simp_all add: st_reference_def)
  from set_rotation_table [of st_reference 7] a
  obtain s where s: "set_rotation st_reference 7 = Returned s"
    "trace s = trace st_reference @ cmd_events (has_cs st_reference) 0x36
                   @ data_events (has_cs st_reference)
                       [if (7::int) mod 4 = 0 then 0x00 else if (7::int) mod 4 = 1 then 0x60
                        else if (7::int) mod 4 = 2 then 0xC0 else 0xA0]"
    "(w s, h s) = (if (7::int) mod 4 = 0 \<or> (7::int) mod 4 = 2 then (240, 320) else (320, 240))"
    by blast
  from set_rotation_table [of st_reference "- 3"] a
  obtain s2 where s2: "set_rotation st_reference (- 3) = Returned s2"
    "rotation s2 = (- 3) mod 4"
    by blast
  show ?thesis using a s s2 t by (simp add: cmd_events_def data_events_def)
qed

section \<open>Reset and backlight\<close>

lemma xl_call_ok:
  assumes "xl9555_obj d = Some x" "xl_valid x" "0 \<le> pin" "pin \<le> 15"
  shows "\<exists>x1. xl_call d pin v = Returned (emit (d\<lparr>xl9555_obj := Some x1\<rparr>) [PinWrite pin v])
              \<and> xl_valid x1"
proof -
  obtain x1 where "write_pin x pin v = Returned x1" "xl_valid x1"
    using write_pin_valid [OF assms(3,4,2)] by blast
  thus ?thesis using assms(1) by (auto simp add: xl_call_def)
qed

lemma reset_no_expander:
  "xl9555_obj d = None \<Longrightarrow> reset d = Raised RuntimeError d"
  by (simp add: reset_def use_xl9555_def)

lemma backlight_no_expander:
  "xl9555_obj d = None \<Longrightarrow> set_backlight d on = Returned (emit d [Print backlight_warning])"
  by (simp add: set_backlight_def use_xl9555_def)

lemma pulse_ok:
  assumes "xl9555_obj d = Some x" "xl_valid x"
  shows "\<exists>x2. then_do (xl_call d pin_rst False) (\<lambda>d1.
              then_do (sleep_ms d1 a) (\<lambda>d2.
              then_do (xl_call d2 pin_rst True) (\<lambda>d3.
              sleep_ms d3 b)))
            = Returned (emit (d\<lparr>xl9555_obj := Some x2\<rparr>) (reset_pulse a b))
            \<and> xl_valid x2"
proof -
  obtain x1 where c1: "xl_call d pin_rst False
        = Returned (emit (d\<lparr>xl9555_obj := Some x1\<rparr>) [PinWrite pin_rst False])"
    and v1: "xl_valid x1"
    using xl_call_ok [OF assms, of pin_rst False] by (auto simp add: pin_rst_def)
  let ?d2 = "emit (emit (d\<lparr>xl9555_obj := Some x1\<rparr>) [PinWrite pin_rst False]) [SleepMs a]"
  have o2: "xl9555_obj ?d2 = Some x1" by (simp add: emit_def)
  obtain x2 where c2: "xl_call ?d2 pin_rst True
        = Returned (emit (?d2\<lparr>xl9555_obj := Some x2\<rparr>) [PinWrite pin_rst True])"
    and v2: "xl_valid x2"
    using xl_call_ok [OF o2 v1, of pin_rst True] by (auto simp add: pin_rst_def)
  have "then_do (xl_call d pin_rst False) (\<lambda>d1.
              then_do (sleep_ms d1 a) (\<lambda>d2.
              then_do (xl_call d2 pin_rst True) (\<lambda>d3.
              sleep_ms d3 b)))
        = Returned (emit (d\<lparr>xl9555_obj := Some x2\<rparr>) (reset_pulse a b))"
    by (simp add: c1 then_do_Returned sleep_ms_def c2) (simp add: emit_def reset_pulse_def)
  thus ?thesis using v2 by blast
qed

lemma reset_with_expander:
  assumes "xl9555_obj d = Some x" "xl_valid x"
  shows "\<exists>x2. reset d = Returned (emit (d\<lparr>xl9555_obj := Some x2\<rparr>) (reset_pulse 100 100))
              \<and> xl_valid x2"
  using pulse_ok [OF assms, of 100 100] assms(1) by (simp add: reset_def use_xl9555_def)

lemma backlight_with_expander:
  assumes "xl9555_obj d = Some x" "xl_valid x"
  shows "\<exists>x1. set_backlight d on
                = Returned (emit (d\<lparr>xl9555_obj := Some x1\<rparr>) [PinWrite pin_bl on])
              \<and> xl_valid x1"
  using xl_call_ok [OF assms, of pin_bl on] assms(1)
  by (simp add: set_backlight_def use_xl9555_def pin_bl_def)

text \<open>
  Claim C6.  Without an expander, \<open>reset\<close> raises RuntimeError and leaves the driver as it
  was, while \<open>set_backlight\<close> returns, having done nothing beyond printing the warning
  line.  With an expander (in the state its methods leave it in), both return: \<open>reset\<close>
  has pulsed pin 10 low then high with 100 ms after each, \<open>set_backlight\<close> has written
  the level to pin 11.
\<close>

theorem reset_backlight_contract:
  "(xl9555_obj d = None \<longrightarrow>
      reset d = Raised RuntimeError d
      \<and> set_backlight d on = Returned (d\<lparr>trace := trace d @ [Print backlight_warning]\<rparr>))
   \<and> (\<forall>x. xl9555_obj d = Some x \<and> xl_valid x \<longrightarrow>
        (\<exists>x2. reset d = Returned (d\<lparr>xl9555_obj := Some x2,
                   trace := trace d @ [PinWrite 10 False, SleepMs 100,
                                        PinWrite 10 True, SleepMs 100]\<rparr>))
        \<and> (\<exists>x1. set_backlight d on
                   = Returned (d\<lparr>xl9555_obj := Some x1, trace := trace d @ [PinWrite 11 on]\<rparr>)))"
proof (intro conjI impI allI)
  assume "xl9555_obj d = None"
  thus "reset d = Raised RuntimeError d" by (rule reset_no_expander)
next
  assume "xl9555_obj d = None"
  thus "set_backlight d on = Returned (d\<lparr>trace := trace d @ [Print backlight_warning]\<rparr>)"
    by (simp add: backlight_no_expander emit_def)
next
  fix x assume a: "xl9555_obj d = Some x \<and> xl_valid x"
  from reset_with_expander [of d x] a
  show "\<exists>x2. reset d = Returned (d\<lparr>xl9555_obj := Some x2,
                   trace := trace d @ [PinWrite 10 False, SleepMs 100,
                                        PinWrite 10 True, SleepMs 100]\<rparr>)"
    by (auto simp add: emit_def reset_pulse_def pin_rst_def)
next
  fix x assume a: "xl9555_obj d = Some x \<and> xl_valid x"
  from backlight_with_expander [of d x on] a
  show "\<exists>x1. set_backlight d on
                   = Returned (d\<lparr>xl9555_obj := Some x1, trace := trace d @ [PinWrite 11 on]\<rparr>)"
    by (auto simp add: emit_def pin_bl_def)
qed

theorem reset_backlight_contract_witness:
  "xl9555_obj (st_example True None) = None
   \<and> raised (reset (st_example True None)) = Some RuntimeError
   \<and> raised (set_backlight (st_example True None) True) = None
   \<and> trace (final (set_backlight (st_example True None) True)) = [Print backlight_warning]
   \<and> xl9555_obj (st_example True (Some xl_example)) = Some xl_example
   \<and> xl_valid xl_example
   \<and> raised (reset (st_example True (Some xl_example))) = None
   \<and> raised (set_backlight (st_example True (Some xl_example)) False) = None"
proof -
  have n: "xl9555_obj (st_example True None) = None" by (simp add: st_example_def)
  have s: "xl9555_obj (st_example True (Some xl_example)) = Some xl_example"
    by (simp add: st_example_def)
  have v: "xl_valid xl_example" by (simp add: xl_example_def xl_valid_def byte_val_def)
  have t: "trace (st_example True None) = []" by (simp add: st_example_def)
  note a = reset_backlight_contract [of "st_example True None" True]
  note b = reset_backlight_contract [of "st_example True (Some xl_example)" False]
  from a n have a1: "reset (st_example True None) = Raised RuntimeError (st_example True None)"
    and a2: "set_backlight (st_example True None) True
       = Returned ((st_example True None)\<lparr>trace := trace (st_example True None)
                                                      @ [Print backlight_warning]\<rparr>)"
    by simp_all
  from b s v obtain x2 x1 where
    b1: "reset (st_example True (Some xl_example)) = Returned ((st_example True (Some xl_example))\<lparr>xl9555_obj := Some x2,
                   trace := trace (st_example True (Some xl_example)) @ [PinWrite 10 False, SleepMs 100,
                                        PinWrite 10 True, SleepMs 100]\<rparr>)"
    and b2: "set_backlight (st_example True (Some xl_example)) False
                   = Returned ((st_example True (Some xl_example))\<lparr>xl9555_obj := Some x1,
                        trace := trace (st_example True (Some xl_example)) @ [PinWrite 11 False]\<rparr>)"
    by blast
  show ?thesis by (simp add: n s v a1 a2 b1 b2 t)
qed


section \<open>Refresh: the byte swap\<close>

lemma length_swap2: "length (swap2 xs) = length xs"
  by (induction xs rule: swap2.induct) simp_all

lemma swap2_swap2: "swap2 (swap2 xs) = xs"
  by (induction xs rule: swap2.induct) simp_all

lemma swap2_append:
  "even (length xs) \<Longrightarrow> swap2 (xs @ ys) = swap2 xs @ swap2 ys"
  by (induction xs rule: swap2.induct) simp_all

lemma swap2_nth:
  "even (length xs) \<Longrightarrow> q < length xs \<Longrightarrow>
   swap2 xs ! q = xs ! (if even q then q + 1 else q - 1)"
proof (induction xs arbitrary: q rule: swap2.induct)
  case (1 a b rest)
  show ?case
  proof (cases q)
    case 0
    thus ?thesis by simp
  next
    case (Suc q1)
    show ?thesis
    proof (cases q1)
      case 0
      thus ?thesis using Suc by simp
    next
      case (Suc q2)
      have "swap2 rest ! q2 = rest ! (if even q2 then q2 + 1 else q2 - 1)"
        using 1 \<open>q = Suc q1\<close> Suc by simp
      moreover have "odd q2 \<Longrightarrow> 0 < q2" by (cases q2) simp_all
      ultimately show ?thesis using \<open>q = Suc q1\<close> Suc by (auto simp add: nth_Cons')
    qed
  qed
qed simp_all

lemma concat_swap2:
  "list_all (\<lambda>x. even (length x)) xss \<Longrightarrow> concat (map swap2 xss) = swap2 (concat xss)"
  by (induction xss) (simp_all add: swap2_append)

lemma range_step_2: "even m \<Longrightarrow> range_step m 2 = map (\<lambda>k. k * 2) [0..<m div 2]"
  by (auto simp add: range_step_def elim!: evenE)

text \<open>The invariant of the inner loop: the first \<open>2 * a\<close> bytes of the chunk are swapped.\<close>

lemma swap_pairs_invariant:
  assumes "even m" "i + m \<le> length buf" "2 * b \<le> m"
  shows "a \<le> b \<Longrightarrow> length chunk = m \<Longrightarrow>
         (\<forall>q < 2 * a. chunk ! q = swap2 (take m (drop i buf)) ! q) \<Longrightarrow>
         \<exists>chunk1. swap_pairs buf i chunk (map (\<lambda>k. k * 2) [a..<b]) = Some chunk1
               \<and> length chunk1 = m
               \<and> (\<forall>q < 2 * b. chunk1 ! q = swap2 (take m (drop i buf)) ! q)"
proof (induction "b - a" arbitrary: a chunk)
  case 0
  hence "a = b" by simp
  thus ?case using 0 by simp
next
  case (Suc n)
  let ?seg = "take m (drop i buf)"
  have ab: "a < b" using Suc.hyps(2) by simp
  have seglen: "length ?seg = m" using assms(2) by simp
  have r: "[a..<b] = a # [Suc a..<b]" using ab by (simp add: upt_rec)
  have in1: "2 * a + 1 < m" using ab assms(3) by simp
  let ?c1 = "chunk[2 * a := buf ! (i + 2 * a + 1), 2 * a + 1 := buf ! (i + 2 * a)]"
  have s0: "swap2 ?seg ! (2 * a) = buf ! (i + 2 * a + 1)"
    using swap2_nth [of ?seg "2 * a"] seglen assms(1,2) in1 by simp
  have s1: "swap2 ?seg ! (2 * a + 1) = buf ! (i + 2 * a)"
    using swap2_nth [of ?seg "2 * a + 1"] seglen assms(1,2) in1 by simp
  have inv: "\<forall>q < 2 * Suc a. ?c1 ! q = swap2 ?seg ! q"
  proof (intro allI impI)
    fix q assume q: "q < 2 * Suc a"
    have "q < 2 * a \<or> q = 2 * a \<or> q = 2 * a + 1" using q by arith
    then consider "q < 2 * a" | "q = 2 * a" | "q = 2 * a + 1" by blast
    thus "?c1 ! q = swap2 ?seg ! q"
    proof cases
      case 1
      thus ?thesis using Suc.prems(3) by simp
    next
      case 2
      thus ?thesis using s0 in1 Suc.prems(2) by simp
    next
      case 3
      thus ?thesis using s1 in1 Suc.prems(2) by simp
    qed
  qed
  have step: "swap_pairs buf i chunk (map (\<lambda>k. k * 2) [a..<b])
              = swap_pairs buf i ?c1 (map (\<lambda>k. k * 2) [Suc a..<b])"
    using in1 assms(2) Suc.prems(2) by (simp add: r Let_def mult.commute)
  have "\<exists>chunk1. swap_pairs buf i ?c1 (map (\<lambda>k. k * 2) [Suc a..<b]) = Some chunk1
               \<and> length chunk1 = m
               \<and> (\<forall>q < 2 * b. chunk1 ! q = swap2 ?seg ! q)"
    using Suc.hyps(2) ab Suc.prems(2) inv
    by (intro Suc.hyps(1)) simp_all
  thus ?case by (simp only: step)
qed

lemma swap_pairs_chunk:
  assumes "even m" "i + m \<le> length buf"
  shows "swap_pairs buf i (replicate m 0) (range_step m 2) = Some (swap2 (take m (drop i buf)))"
proof -
  have "2 * (m div 2) \<le> m" by simp
  from swap_pairs_invariant [OF assms this, of 0 "replicate m 0"]
  obtain chunk1 where c: "swap_pairs buf i (replicate m 0) (map (\<lambda>k. k * 2) [0..<m div 2])
                          = Some chunk1"
    "length chunk1 = m" "\<forall>q < 2 * (m div 2). chunk1 ! q = swap2 (take m (drop i buf)) ! q"
    by auto
  have "2 * (m div 2) = m" using assms(1) by simp
  hence "chunk1 = swap2 (take m (drop i buf))"
    using c(2,3) assms(2) by (intro nth_equalityI) (simp_all add: length_swap2)
  thus ?thesis using c(1) by (simp add: range_step_2 [OF assms(1)])
qed


text \<open>The chunk offsets cover the buffer: there are \<open>(n + c - 1) div c\<close> of them.\<close>

lemma offset_below:
  assumes "0 < c" "a < (n + c - 1) div c"
  shows "a * c < (n::nat)"
proof -
  have "Suc a \<le> (n + c - 1) div c" using assms(2) by simp
  hence "Suc a * c \<le> n + c - 1" using assms(1) by (simp add: less_eq_div_iff_mult_less_eq)
  thus ?thesis using assms(1) by simp
qed

lemma offsets_cover:
  assumes "0 < c"
  shows "(n::nat) \<le> ((n + c - 1) div c) * c"
proof -
  have "n + c - 1 = ((n + c - 1) div c) * c + (n + c - 1) mod c" by simp
  moreover have "(n + c - 1) mod c < c" using assms by simp
  ultimately show ?thesis by linarith
qed

lemma concat_pieces:
  assumes "0 < c" "length buf \<le> N * c"
  shows "a \<le> N \<Longrightarrow> concat (map (\<lambda>k. take c (drop (k * c) buf)) [a..<N]) = drop (a * c) buf"
proof (induction "N - a" arbitrary: a)
  case 0
  hence "a = N" by simp
  thus ?case using assms(2) by simp
next
  case (Suc n)
  have ab: "a < N" using Suc.hyps(2) by simp
  have r: "[a..<N] = a # [Suc a..<N]" using ab by (simp add: upt_rec)
  have "concat (map (\<lambda>k. take c (drop (k * c) buf)) [Suc a..<N]) = drop (Suc a * c) buf"
    using Suc.hyps(2) ab by (intro Suc.hyps(1)) simp_all
  moreover have "drop (Suc a * c) buf = drop c (drop (a * c) buf)"
    by (simp add: add.commute)
  moreover have "take c (drop (a * c) buf) @ drop c (drop (a * c) buf) = drop (a * c) buf"
    by (rule append_take_drop_id)
  ultimately show ?case unfolding r by (simp only: list.map concat.simps)
qed

lemma send_chunks_result:
  assumes "even c" "0 < c" "even (length buf)" "\<And>k. k < N \<Longrightarrow> k * c < length buf"
  shows "a \<le> N \<Longrightarrow>
         send_chunks c d buf (map (\<lambda>k. k * c) [a..<N])
         = Returned (emit d (map SpiWrite
              (map (\<lambda>k. swap2 (take c (drop (k * c) buf))) [a..<N])))"
proof (induction "N - a" arbitrary: a d)
  case 0
  hence "a = N" by simp
  thus ?case by (simp add: emit_def)
next
  case (Suc n)
  have ab: "a < N" using Suc.hyps(2) by simp
  have r: "[a..<N] = a # [Suc a..<N]" using ab by (simp add: upt_rec)
  have lt: "a * c < length buf" using assms(4) [OF ab] .
  let ?m = "min (a * c + c) (length buf) - a * c"
  have m: "?m = min c (length buf - a * c)" by simp
  have ev: "even ?m" unfolding m using assms(1,3) by (simp add: min_def)
  have le: "a * c + ?m \<le> length buf" using lt by simp
  have tk: "take ?m (drop (a * c) buf) = take c (drop (a * c) buf)"
    unfolding m by (simp add: min_def)
  have sp: "swap_pairs buf (a * c) (replicate ?m 0) (range_step ?m 2)
            = Some (swap2 (take c (drop (a * c) buf)))"
    using swap_pairs_chunk [OF ev le] by (simp only: tk)
  have ih: "send_chunks c (emit d [SpiWrite (swap2 (take c (drop (a * c) buf)))]) buf
              (map (\<lambda>k. k * c) [Suc a..<N])
            = Returned (emit (emit d [SpiWrite (swap2 (take c (drop (a * c) buf)))])
                (map SpiWrite (map (\<lambda>k. swap2 (take c (drop (k * c) buf))) [Suc a..<N])))"
    using Suc.hyps(2) ab by (intro Suc.hyps(1)) simp_all
  have "send_chunks c d buf (map (\<lambda>k. k * c) [a..<N])
        = send_chunks c (emit d [SpiWrite (swap2 (take c (drop (a * c) buf)))]) buf
              (map (\<lambda>k. k * c) [Suc a..<N])"
    unfolding r using sp by (simp add: Let_def)
  also note ih
  finally show ?case unfolding r by (simp add: emit_emit)
qed

lemma pieces_even:
  assumes "even c" "even (length buf)"
  shows "list_all (\<lambda>x. even (length x)) (map (\<lambda>k. take c (drop (k * c) buf)) ks)"
  using assms by (simp add: list_all_iff min_def)

lemma chunks_roundtrip:
  assumes "even c" "0 < c" "even (length buf)"
  shows "concat (map (\<lambda>k. swap2 (take c (drop (k * c) buf))) [0..<(length buf + c - 1) div c])
         = swap2 buf"
proof -
  let ?N = "(length buf + c - 1) div c"
  have "concat (map (\<lambda>k. swap2 (take c (drop (k * c) buf))) [0..<?N])
        = concat (map swap2 (map (\<lambda>k. take c (drop (k * c) buf)) [0..<?N]))"
    by (simp add: comp_def)
  also have "\<dots> = swap2 (concat (map (\<lambda>k. take c (drop (k * c) buf)) [0..<?N]))"
    by (rule concat_swap2) (rule pieces_even [OF assms(1,3)])
  also have "concat (map (\<lambda>k. take c (drop (k * c) buf)) [0..<?N]) = drop (0 * c) buf"
    by (rule concat_pieces [OF assms(2) offsets_cover [OF assms(2)]]) simp
  finally show ?thesis by simp
qed

lemma full_window:
  "has_cs d \<Longrightarrow>
   set_window d 0 0 (width d) (height d) = Returned (emit d (full_window_events d))"
  by (simp add: set_window_trace full_window_events_def)

lemma show_chunked_result:
  assumes "has_cs d" "even c" "0 < c" "even (length (buffer d))"
  shows "show_chunked c d
         = Returned (emit d (refresh_events d
             (map (\<lambda>k. swap2 (take c (drop (k * c) (buffer d))))
                  [0..<(length (buffer d) + c - 1) div c])))"
proof -
  define N where "N = (length (buffer d) + c - 1) div c"
  have rs: "range_step (length (buffer d)) c = map (\<lambda>k. k * c) [0..<N]"
    by (simp only: range_step_def N_def)
  have below: "\<And>k. k < N \<Longrightarrow> k * c < length (buffer d)"
    unfolding N_def by (rule offset_below [OF assms(3)])
  have sc: "\<And>s. send_chunks c s (buffer d) (map (\<lambda>k. k * c) [0..<N])
         = Returned (emit s (map SpiWrite
              (map (\<lambda>k. swap2 (take c (drop (k * c) (buffer d)))) [0..<N])))"
    by (rule send_chunks_result [OF assms(2,3,4) below]) simp_all
  have "show_chunked c d
         = Returned (emit d (refresh_events d
             (map (\<lambda>k. swap2 (take c (drop (k * c) (buffer d)))) [0..<N])))"
    using assms(1,3)
    by (simp add: show_chunked_def Let_def full_window then_do_Returned has_cs_emit rs sc
        emit_emit refresh_events_def)
  thus ?thesis by (simp only: N_def)
qed

lemma refresh_chunks:
  assumes "has_cs d" "even c" "0 < c" "even (length (buffer d))"
  shows "\<exists>chunks. show_chunked c d = Returned (emit d (refresh_events d chunks))
           \<and> list_all (\<lambda>ch. length ch \<le> c) chunks
           \<and> swap2 (concat chunks) = buffer d
           \<and> (\<forall>p. 2 * p + 1 < length (buffer d) \<longrightarrow>
                 concat chunks ! (2 * p) = buffer d ! (2 * p + 1)
                 \<and> concat chunks ! (2 * p + 1) = buffer d ! (2 * p))"
proof -
  let ?chunks = "map (\<lambda>k. swap2 (take c (drop (k * c) (buffer d))))
                  [0..<(length (buffer d) + c - 1) div c]"
  have cc: "concat ?chunks = swap2 (buffer d)"
    using chunks_roundtrip [OF assms(2,3,4)] .
  have "list_all (\<lambda>ch. length ch \<le> c) ?chunks"
    by (simp add: list_all_iff length_swap2)
  moreover have "swap2 (concat ?chunks) = buffer d" by (simp only: cc swap2_swap2)
  moreover have "\<forall>p. 2 * p + 1 < length (buffer d) \<longrightarrow>
                 concat ?chunks ! (2 * p) = buffer d ! (2 * p + 1)
                 \<and> concat ?chunks ! (2 * p + 1) = buffer d ! (2 * p)"
  proof (intro allI impI)
    fix p assume p: "2 * p + 1 < length (buffer d)"
    show "concat ?chunks ! (2 * p) = buffer d ! (2 * p + 1)
                 \<and> concat ?chunks ! (2 * p + 1) = buffer d ! (2 * p)"
      using swap2_nth [OF assms(4), of "2 * p"] swap2_nth [OF assms(4), of "2 * p + 1"] p
      by (simp only: cc) simp
  qed
  ultimately show ?thesis using show_chunked_result [OF assms] by blast
qed

text \<open>
  Claim C1.  On a driver with a chip-select pin and a frame buffer of even length,
  \<open>show\<close> returns, leaves the driver unchanged apart from the trace, and has put on the
  bus the window commands followed by one transaction of data chunks of at most 512
  bytes.  The concatenation of the chunks, swapped back in 2-byte groups, is the buffer;
  byte for byte, the two bytes of the pixel at offset 2p are exchanged and no byte leaves
  its pixel.  The same holds for every even positive chunk size, whether or not it
  divides the buffer length.
\<close>

theorem show_byte_swap_roundtrip:
  "(has_cs d \<and> even (length (buffer d)) \<longrightarrow>
      (\<exists>chunks. show_display d = Returned (emit d (refresh_events d chunks))
           \<and> list_all (\<lambda>ch. length ch \<le> 512) chunks
           \<and> swap2 (concat chunks) = buffer d
           \<and> (\<forall>p. 2 * p + 1 < length (buffer d) \<longrightarrow>
                 concat chunks ! (2 * p) = buffer d ! (2 * p + 1)
                 \<and> concat chunks ! (2 * p + 1) = buffer d ! (2 * p))))
   \<and> (has_cs d \<and> even (length (buffer d)) \<and> even c \<and> 0 < c \<longrightarrow>
      (\<exists>chunks. show_chunked c d = Returned (emit d (refresh_events d chunks))
           \<and> list_all (\<lambda>ch. length ch \<le> c) chunks
           \<and> swap2 (concat chunks) = buffer d
           \<and> (\<forall>p. 2 * p + 1 < length (buffer d) \<longrightarrow>
                 concat chunks ! (2 * p) = buffer d ! (2 * p + 1)
                 \<and> concat chunks ! (2 * p + 1) = buffer d ! (2 * p))))"
proof (intro conjI impI)
  assume a: "has_cs d \<and> even (length (buffer d))"
  have "even (512::nat)" "0 < (512::nat)" by simp_all
  from refresh_chunks [OF conjunct1 [OF a] this conjunct2 [OF a]]
  show "\<exists>chunks. show_display d = Returned (emit d (refresh_events d chunks))
           \<and> list_all (\<lambda>ch. length ch \<le> 512) chunks
           \<and> swap2 (concat chunks) = buffer d
           \<and> (\<forall>p. 2 * p + 1 < length (buffer d) \<longrightarrow>
                 concat chunks ! (2 * p) = buffer d ! (2 * p + 1)
                 \<and> concat chunks ! (2 * p + 1) = buffer d ! (2 * p))"
    by (simp only: show_display_def CHUNK_def)
next
  assume a: "has_cs d \<and> even (length (buffer d)) \<and> even c \<and> 0 < c"
  hence "has_cs d" "even c" "0 < c" "even (length (buffer d))" by simp_all
  thus "\<exists>chunks. show_chunked c d = Returned (emit d (refresh_events d chunks))
           \<and> list_all (\<lambda>ch. length ch \<le> c) chunks
           \<and> swap2 (concat chunks) = buffer d
           \<and> (\<forall>p. 2 * p + 1 < length (buffer d) \<longrightarrow>
                 concat chunks ! (2 * p) = buffer d ! (2 * p + 1)
                 \<and> concat chunks ! (2 * p + 1) = buffer d ! (2 * p))"
    by (rule refresh_chunks)
qed

lemma show_chunked_example:
  "show_chunked 6 (st_example True None)
   = Returned (emit (st_example True None)
       (refresh_events (st_example True None) [[2, 1, 4, 3, 6, 5], [8, 7]]))"
  by code_simp

lemma show_display_example:
  "show_display (st_example True None)
   = Returned (emit (st_example True None)
       (refresh_events (st_example True None) [[2, 1, 4, 3, 6, 5, 8, 7]]))"
  by code_simp

theorem show_byte_swap_roundtrip_witness:
  "has_cs (st_example True None) \<and> even (length (buffer (st_example True None)))
   \<and> even (6::nat) \<and> 0 < (6::nat)
   \<and> show_display (st_example True None)
       = Returned (emit (st_example True None)
           (refresh_events (st_example True None) [[2, 1, 4, 3, 6, 5, 8, 7]]))
   \<and> swap2 (concat [[2, 1, 4, 3, 6, 5, 8, 7]]) = buffer (st_example True None)
   \<and> show_chunked 6 (st_example True None)
       = Returned (emit (st_example True None)
           (refresh_events (st_example True None) [[2, 1, 4, 3, 6, 5], [8, 7]]))
   \<and> swap2 (concat [[2, 1, 4, 3, 6, 5], [8, 7]]) = buffer (st_example True None)"
  using show_byte_swap_roundtrip [of "st_example True None" 6]
    show_chunked_example show_display_example
  by (simp add: st_example_def)


section \<open>The pixel store\<close>

lemma cell_bound:
  fixes x y W H :: int
  assumes "0 \<le> x" "x < W" "0 \<le> y" "y < H"
  shows "0 \<le> y * W + x" "y * W + x < W * H"
proof -
  have "0 \<le> y * W" using assms by simp
  thus "0 \<le> y * W + x" using assms(1) by simp
  have "(y + 1) * W \<le> H * W" using assms by (intro mult_right_mono) simp_all
  thus "y * W + x < W * H" using assms(2) by (simp add: algebra_simps)
qed

lemma cell_inj:
  fixes x y W :: int
  assumes "0 \<le> x" "x < W" "0 \<le> x1" "x1 < W" "y * W + x = y1 * W + x1"
  shows "x = x1 \<and> y = y1"
proof -
  have "(y * W + x) div W = y" "(y * W + x) mod W = x" using assms(1,2) by simp_all
  moreover have "(y1 * W + x1) div W = y1" "(y1 * W + x1) mod W = x1"
    using assms(3,4) by simp_all
  ultimately show ?thesis using assms(5) by simp
qed

lemma offset_in_store:
  assumes "store_invariant d" "in_bounds d x y"
  shows "fb_offset d x y + 1 < length (buffer d)" "even (fb_offset d x y)"
proof -
  have b: "0 \<le> y * width d + x" "y * width d + x < width d * height d"
    using assms(2) cell_bound [of x "width d" y "height d"] by (simp_all add: in_bounds_def)
  thus "fb_offset d x y + 1 < length (buffer d)"
    using assms(1) by (simp add: store_invariant_def fb_offset_def)
  have "fb_offset d x y = 2 * nat (y * width d + x)"
    using b(1) by (simp add: fb_offset_def nat_mult_distrib)
  thus "even (fb_offset d x y)" by simp
qed

lemma offset_inj:
  assumes "in_bounds d x y" "in_bounds d x1 y1" "fb_offset d x y = fb_offset d x1 y1"
  shows "x = x1 \<and> y = y1"
proof -
  have "0 \<le> y * width d + x" "0 \<le> y1 * width d + x1"
    using assms(1,2) cell_bound [of x "width d" y "height d"]
      cell_bound [of x1 "width d" y1 "height d"] by (simp_all add: in_bounds_def)
  hence "y * width d + x = y1 * width d + x1"
    using assms(3) by (simp add: fb_offset_def)
  thus ?thesis using assms(1,2) cell_inj [of x "width d" x1 y y1] by (simp add: in_bounds_def)
qed

lemma fb_pixel_fields:
  "width (fb_pixel d x y c) = width d" "height (fb_pixel d x y c) = height d"
  "has_cs (fb_pixel d x y c) = has_cs d" "trace (fb_pixel d x y c) = trace d"
  "buffer_allocs (fb_pixel d x y c) = buffer_allocs d"
  "xl9555_obj (fb_pixel d x y c) = xl9555_obj d"
  "rotation (fb_pixel d x y c) = rotation d" "w (fb_pixel d x y c) = w d"
  "h (fb_pixel d x y c) = h d"
  "length (buffer (fb_pixel d x y c)) = length (buffer d)"
  by (simp_all add: fb_pixel_def)

lemma fb_pixel_geometry:
  "in_bounds (fb_pixel d x y c) px py = in_bounds d px py"
  "fb_offset (fb_pixel d x y c) px py = fb_offset d px py"
  "store_invariant (fb_pixel d x y c) = store_invariant d"
  by (simp_all add: in_bounds_def fb_offset_def store_invariant_def fb_pixel_fields)

lemma fb_pixel_nth:
  assumes "store_invariant d" "k < length (buffer d)"
  shows "buffer (fb_pixel d x y c) ! k
         = (if in_bounds d x y \<and> k div 2 = fb_offset d x y div 2 then color_byte c k
            else buffer d ! k)"
proof (cases "in_bounds d x y")
  case False
  thus ?thesis by (simp add: fb_pixel_def)
next
  case True
  note o = offset_in_store [OF assms(1) True]
  have "k div 2 = fb_offset d x y div 2
        \<longleftrightarrow> k = fb_offset d x y \<or> k = fb_offset d x y + 1"
    using o(2) by (auto elim!: evenE)
  thus ?thesis
    using True o assms(2) by (auto simp add: fb_pixel_def color_byte_def nth_list_update)
qed

lemma uint_bytes_16:
  "uint (word_of_int (drop_bit 8 c) :: byte) * 256 + uint (word_of_int c :: byte) = c mod 65536"
proof -
  have "uint (word_of_int (drop_bit 8 c) :: byte) = c div 256 mod 256"
    by (simp only: drop_bit_8 uint_word_of_int) simp
  moreover have "uint (word_of_int c :: byte) = c mod 256"
    by (simp only: uint_word_of_int) simp
  moreover have "c div 256 mod 256 * 256 + c mod 256 = c mod 65536"
  proof -
    have "c mod 65536 = c mod (256 * 256)" by simp
    also have "\<dots> = 256 * (c div 256 mod 256) + c mod 256" by (rule zmod_zmult2_eq) simp
    finally show ?thesis by simp
  qed
  ultimately show ?thesis by simp
qed

lemma fb_get_after_pixel:
  assumes "store_invariant d" "in_bounds d x y"
  shows "fb_get_pixel (fb_pixel d x y c) x y = Some (c mod 65536)"
proof -
  note o = offset_in_store [OF assms]
  have "buffer (fb_pixel d x y c) ! fb_offset d x y = word_of_int c"
    using o assms by (simp add: fb_pixel_def nth_list_update)
  moreover have "buffer (fb_pixel d x y c) ! (fb_offset d x y + 1) = word_of_int (drop_bit 8 c)"
    using o assms by (simp add: fb_pixel_def nth_list_update)
  ultimately show ?thesis
    using assms(2) uint_bytes_16 [of c]
    by (simp add: fb_get_pixel_def fb_pixel_geometry)
qed

lemma fb_get_other_pixel:
  assumes "store_invariant d" "in_bounds d px py" "(px, py) \<noteq> (x, y)"
  shows "fb_get_pixel (fb_pixel d x y c) px py = fb_get_pixel d px py"
proof (cases "in_bounds d x y")
  case False
  thus ?thesis by (simp add: fb_pixel_def)
next
  case True
  note o = offset_in_store [OF assms(1) True] and p = offset_in_store [OF assms(1,2)]
  have ne: "fb_offset d px py \<noteq> fb_offset d x y"
    using offset_inj [OF assms(2) True] assms(3) by auto
  hence "fb_offset d px py div 2 \<noteq> fb_offset d x y div 2"
    using o(2) p(2) by (auto elim!: evenE)
  moreover have "(fb_offset d px py + 1) div 2 = fb_offset d px py div 2"
    using p(2) by (auto elim!: evenE)
  ultimately show ?thesis
    using assms(1,2) p(1) fb_pixel_nth [OF assms(1), of "fb_offset d px py" x y c]
      fb_pixel_nth [OF assms(1), of "fb_offset d px py + 1" x y c]
    by (simp add: fb_get_pixel_def fb_pixel_geometry)
qed

text \<open>
  Claim C2.  On a driver whose buffer has the invariant length: for 0 \<le> x < width and
  0 \<le> y < height, \<open>pixel\<close> stores the low and high byte of the colour at offsets
  \<open>(y * width + x) * 2\<close> and the next one, changing nothing else, so that a read of (x, y)
  returns the colour (its low 16 bits; the colour itself when it is a 16-bit value) and
  every other pixel reads as before; for any other (x, y) the driver, buffer included, is
  exactly as before.  \<open>pixel\<close> has no raising branch.
\<close>

theorem pixel_write_read:
  "store_invariant d \<longrightarrow>
     (0 \<le> x \<and> x < width d \<and> 0 \<le> y \<and> y < height d \<longrightarrow>
        pixel d x y c
          = d\<lparr>buffer := (buffer d)[fb_offset d x y := word_of_int c,
                                    fb_offset d x y + 1 := word_of_int (drop_bit 8 c)]\<rparr>
        \<and> fb_get_pixel (pixel d x y c) x y = Some (c mod 65536)
        \<and> (0 \<le> c \<and> c < 65536 \<longrightarrow> fb_get_pixel (pixel d x y c) x y = Some c)
        \<and> (\<forall>px py. in_bounds d px py \<and> (px, py) \<noteq> (x, y) \<longrightarrow>
              fb_get_pixel (pixel d x y c) px py = fb_get_pixel d px py))
     \<and> (\<not> (0 \<le> x \<and> x < width d \<and> 0 \<le> y \<and> y < height d) \<longrightarrow> pixel d x y c = d)"
proof (intro impI conjI allI)
  assume inv: "store_invariant d" and b: "0 \<le> x \<and> x < width d \<and> 0 \<le> y \<and> y < height d"
  hence ib: "in_bounds d x y" by (simp add: in_bounds_def)
  have p: "pixel d x y c = fb_pixel d x y c" using b by (simp add: pixel_def)
  show "pixel d x y c
          = d\<lparr>buffer := (buffer d)[fb_offset d x y := word_of_int c,
                                    fb_offset d x y + 1 := word_of_int (drop_bit 8 c)]\<rparr>"
    using ib by (simp add: p fb_pixel_def)
  show g: "fb_get_pixel (pixel d x y c) x y = Some (c mod 65536)"
    using fb_get_after_pixel [OF inv ib] by (simp add: p)
  { assume "0 \<le> c \<and> c < 65536"
    thus "fb_get_pixel (pixel d x y c) x y = Some c" using g by simp }
  { fix px py assume "in_bounds d px py \<and> (px, py) \<noteq> (x, y)"
    thus "fb_get_pixel (pixel d x y c) px py = fb_get_pixel d px py"
      using fb_get_other_pixel [OF inv, of px py x y c] by (simp add: p) }
next
  assume "\<not> (0 \<le> x \<and> x < width d \<and> 0 \<le> y \<and> y < height d)"
  thus "pixel d x y c = d" unfolding pixel_def by (rule if_not_P)
qed

lemma pixel_example:
  "pixel (st_example True None) 1 1 0xF800
     = (st_example True None)\<lparr>buffer := [0x01, 0x02, 0x03, 0x04, 0x05, 0x06, 0x00, 0xF8]\<rparr>"
  by code_simp

theorem pixel_write_read_witness:
  "store_invariant (st_example True None)
   \<and> buffer (pixel (st_example True None) 1 1 0xF800)
       = [0x01, 0x02, 0x03, 0x04, 0x05, 0x06, 0x00, 0xF8]
   \<and> fb_get_pixel (pixel (st_example True None) 1 1 0xF800) 1 1 = Some 0xF800
   \<and> fb_get_pixel (pixel (st_example True None) 1 1 0xF800) 0 1 = Some 0x0605
   \<and> pixel (st_example True None) 2 0 0xF800 = st_example True None
   \<and> pixel (st_example True None) 0 (- 1) 0xF800 = st_example True None"
proof -
  have inv: "store_invariant (st_example True None)"
    by (simp add: store_invariant_def st_example_def)
  have wh: "width (st_example True None) = 2" "height (st_example True None) = 2"
    by (simp_all add: st_example_def)
  have pre: "0 \<le> (1::int) \<and> 1 < width (st_example True None)
             \<and> 0 \<le> (1::int) \<and> 1 < height (st_example True None)"
    by (simp add: wh)
  note t = pixel_write_read [of "st_example True None" 1 1 "0xF800", THEN mp, OF inv,
      THEN conjunct1, THEN mp, OF pre]
  note u = pixel_write_read [of "st_example True None" 2 0 "0xF800", THEN mp, OF inv,
      THEN conjunct2]
  note v = pixel_write_read [of "st_example True None" 0 "- 1" "0xF800", THEN mp, OF inv,
      THEN conjunct2]
  have g: "fb_get_pixel (pixel (st_example True None) 1 1 0xF800) 1 1 = Some 0xF800"
    using t [THEN conjunct2, THEN conjunct1] by simp
  have "in_bounds (st_example True None) 0 1 \<and> ((0::int), (1::int)) \<noteq> (1, 1)"
    by (simp add: in_bounds_def wh)
  hence o: "fb_get_pixel (pixel (st_example True None) 1 1 0xF800) 0 1
           = fb_get_pixel (st_example True None) 0 1"
    using t [THEN conjunct2, THEN conjunct2, THEN conjunct2] by blast
  have o2: "fb_get_pixel (st_example True None) 0 1 = Some 0x0605" by code_simp
  have "pixel (st_example True None) 2 0 0xF800 = st_example True None"
    using u by (simp add: wh)
  moreover have "pixel (st_example True None) 0 (- 1) 0xF800 = st_example True None"
    using v by (simp add: wh)
  ultimately show ?thesis using inv g o o2 pixel_example by simp
qed


section \<open>Rectangle fill\<close>

lemma fold_pixels_same:
  "\<exists>B. fold (\<lambda>p s. fb_pixel s (fst p) (snd p) c) ps d = d\<lparr>buffer := B\<rparr>
       \<and> length B = length (buffer d)"
proof (induction ps arbitrary: d)
  case Nil
  show ?case by (rule exI [of _ "buffer d"]) simp
next
  case (Cons p ps)
  have "\<exists>B0. fb_pixel d (fst p) (snd p) c = d\<lparr>buffer := B0\<rparr>
             \<and> length B0 = length (buffer d)"
  proof (cases "in_bounds d (fst p) (snd p)")
    case True
    thus ?thesis
      by (intro exI [of _ "(buffer d)[fb_offset d (fst p) (snd p) := word_of_int c,
                fb_offset d (fst p) (snd p) + 1 := word_of_int (drop_bit 8 c)]"])
         (simp add: fb_pixel_def)
  next
    case False
    thus ?thesis by (intro exI [of _ "buffer d"]) (simp add: fb_pixel_def)
  qed
  then obtain B0 where b0: "fb_pixel d (fst p) (snd p) c = d\<lparr>buffer := B0\<rparr>"
    "length B0 = length (buffer d)"
    by blast
  obtain B where "fold (\<lambda>p s. fb_pixel s (fst p) (snd p) c) ps (d\<lparr>buffer := B0\<rparr>)
                  = d\<lparr>buffer := B0\<rparr>\<lparr>buffer := B\<rparr>"
    "length B = length (buffer (d\<lparr>buffer := B0\<rparr>))"
    using Cons [of "d\<lparr>buffer := B0\<rparr>"] by blast
  hence "fold (\<lambda>p s. fb_pixel s (fst p) (snd p) c) (p # ps) d = d\<lparr>buffer := B\<rparr>"
    "length B = length (buffer d)"
    using b0 by simp_all
  thus ?case by blast
qed

lemma fold_pixels_nth:
  "store_invariant d \<Longrightarrow> k < length (buffer d) \<Longrightarrow>
   buffer (fold (\<lambda>p s. fb_pixel s (fst p) (snd p) c) ps d) ! k
   = (if \<exists>p \<in> set ps. in_bounds d (fst p) (snd p) \<and> k div 2 = fb_offset d (fst p) (snd p) div 2
      then color_byte c k else buffer d ! k)"
proof (induction ps arbitrary: d)
  case Nil
  show ?case by simp
next
  case (Cons p ps)
  let ?d1 = "fb_pixel d (fst p) (snd p) c"
  have inv1: "store_invariant ?d1" using Cons.prems(1) by (simp add: fb_pixel_geometry)
  have k1: "k < length (buffer ?d1)" using Cons.prems(2) by (simp add: fb_pixel_fields)
  define Q where "Q q \<longleftrightarrow> in_bounds d (fst q) (snd q)
                         \<and> k div 2 = fb_offset d (fst q) (snd q) div 2" for q
  have A: "buffer (fold (\<lambda>p s. fb_pixel s (fst p) (snd p) c) ps ?d1) ! k
        = (if \<exists>q \<in> set ps. Q q then color_byte c k else buffer ?d1 ! k)"
    unfolding Q_def using Cons.IH [OF inv1 k1] by (simp only: fb_pixel_geometry)
  have B: "buffer ?d1 ! k = (if Q p then color_byte c k else buffer d ! k)"
    unfolding Q_def by (rule fb_pixel_nth [OF Cons.prems])
  have F: "fold (\<lambda>p s. fb_pixel s (fst p) (snd p) c) (p # ps) d
           = fold (\<lambda>p s. fb_pixel s (fst p) (snd p) c) ps ?d1"
    by simp
  have "buffer (fold (\<lambda>p s. fb_pixel s (fst p) (snd p) c) (p # ps) d) ! k
        = (if \<exists>q \<in> set (p # ps). Q q then color_byte c k else buffer d ! k)"
    unfolding F A B by (cases "Q p") simp_all
  thus ?case unfolding Q_def .
qed

lemma set_rect_coords:
  "(px, py) \<in> set (rect_coords x y wd ht) \<longleftrightarrow> in_rect x y wd ht px py"
proof -
  have "(px, py) \<in> set (rect_coords x y wd ht)
        \<longleftrightarrow> (\<exists>b \<in> set [y..y + ht - 1]. \<exists>a \<in> set [x..x + wd - 1]. (px, py) = (a, b))"
    unfolding rect_coords_def by (simp only: set_concat set_map UN_iff image_iff bex_simps)
  also have "\<dots> \<longleftrightarrow> py \<in> set [y..y + ht - 1] \<and> px \<in> set [x..x + wd - 1]"
    by (simp only: prod.inject) metis
  also have "\<dots> \<longleftrightarrow> in_rect x y wd ht px py"
    by (simp add: in_rect_def) linarith
  finally show ?thesis .
qed

lemma fb_fill_rect_same:
  "\<exists>B. fb_fill_rect d x y wd ht c = d\<lparr>buffer := B\<rparr> \<and> length B = length (buffer d)"
  unfolding fb_fill_rect_def by (rule fold_pixels_same)

lemma covered_iff:
  assumes "store_invariant d" "in_bounds d px py"
  shows "(\<exists>p \<in> set (rect_coords x y wd ht). in_bounds d (fst p) (snd p)
            \<and> fb_offset d px py div 2 = fb_offset d (fst p) (snd p) div 2)
         \<longleftrightarrow> in_rect x y wd ht px py"
proof
  assume "\<exists>p \<in> set (rect_coords x y wd ht). in_bounds d (fst p) (snd p)
            \<and> fb_offset d px py div 2 = fb_offset d (fst p) (snd p) div 2"
  then obtain qx qy where q: "(qx, qy) \<in> set (rect_coords x y wd ht)" "in_bounds d qx qy"
    "fb_offset d px py div 2 = fb_offset d qx qy div 2"
    by auto
  have "even (fb_offset d px py)" "even (fb_offset d qx qy)"
    using offset_in_store(2) [OF assms(1)] assms(2) q(2) by simp_all
  hence "fb_offset d px py = fb_offset d qx qy" using q(3) by (auto elim!: evenE)
  hence "px = qx \<and> py = qy" by (rule offset_inj [OF assms(2) q(2)])
  thus "in_rect x y wd ht px py" using q(1) by (simp add: set_rect_coords)
next
  assume "in_rect x y wd ht px py"
  hence "(px, py) \<in> set (rect_coords x y wd ht)" by (simp add: set_rect_coords)
  thus "\<exists>p \<in> set (rect_coords x y wd ht). in_bounds d (fst p) (snd p)
            \<and> fb_offset d px py div 2 = fb_offset d (fst p) (snd p) div 2"
    using assms(2) by (intro bexI [of _ "(px, py)"]) simp_all
qed

lemma fb_fill_rect_get:
  assumes "store_invariant d" "in_bounds d px py"
  shows "fb_get_pixel (fb_fill_rect d x y wd ht c) px py
         = (if in_rect x y wd ht px py then Some (c mod 65536) else fb_get_pixel d px py)"
proof -
  note o = offset_in_store [OF assms]
  let ?o = "fb_offset d px py"
  obtain B where B: "fb_fill_rect d x y wd ht c = d\<lparr>buffer := B\<rparr>"
    using fb_fill_rect_same by blast
  have geo: "in_bounds (d\<lparr>buffer := B\<rparr>) px py" "fb_offset (d\<lparr>buffer := B\<rparr>) px py = ?o"
    using assms(2) by (simp_all add: in_bounds_def fb_offset_def)
  have d2: "Suc ?o div 2 = ?o div 2" using o(2) by (auto elim!: evenE)
  have lo: "B ! ?o = (if in_rect x y wd ht px py then word_of_int c else buffer d ! ?o)"
    using fold_pixels_nth [OF assms(1), of ?o c "rect_coords x y wd ht"] o
      covered_iff [OF assms, of x y wd ht] B
    by (simp add: fb_fill_rect_def color_byte_def)
  have hi: "B ! Suc ?o = (if in_rect x y wd ht px py then word_of_int (drop_bit 8 c)
                          else buffer d ! Suc ?o)"
    using fold_pixels_nth [OF assms(1), of "Suc ?o" c "rect_coords x y wd ht"] o
      covered_iff [OF assms, of x y wd ht] B
    by (simp add: fb_fill_rect_def color_byte_def d2)
  show ?thesis
    using assms(2) uint_bytes_16 [of c]
    by (simp add: B fb_get_pixel_def geo lo hi)
qed

lemma fb_fill_rect_bytes:
  assumes "store_invariant d" "k < length (buffer d)"
    "\<not> (\<exists>px py. in_bounds d px py \<and> in_rect x y wd ht px py
           \<and> (k = fb_offset d px py \<or> k = fb_offset d px py + 1))"
  shows "buffer (fb_fill_rect d x y wd ht c) ! k = buffer d ! k"
proof -
  have "\<not> (\<exists>p \<in> set (rect_coords x y wd ht). in_bounds d (fst p) (snd p)
            \<and> k div 2 = fb_offset d (fst p) (snd p) div 2)"
  proof
    assume "\<exists>p \<in> set (rect_coords x y wd ht). in_bounds d (fst p) (snd p)
            \<and> k div 2 = fb_offset d (fst p) (snd p) div 2"
    then obtain qx qy where q: "(qx, qy) \<in> set (rect_coords x y wd ht)" "in_bounds d qx qy"
      "k div 2 = fb_offset d qx qy div 2"
      by auto
    have "even (fb_offset d qx qy)" using offset_in_store(2) [OF assms(1) q(2)] .
    hence "k = fb_offset d qx qy \<or> k = fb_offset d qx qy + 1"
      using q(3) by (auto elim!: evenE)
    thus False using assms(3) q(1,2) by (auto simp add: set_rect_coords)
  qed
  thus ?thesis
    unfolding fb_fill_rect_def
    by (subst fold_pixels_nth [OF assms(1,2)]) (rule if_not_P)
qed

text \<open>The clamping of \<open>fill_rect\<close> does not change which buffer pixels are covered.\<close>

lemma fill_rect_clamped:
  assumes "0 < wd" "0 < ht"
  shows "fill_rect d x y wd ht c
         = fb_fill_rect d (max 0 x) (max 0 y)
             (min (x + wd) (width d) - max 0 x) (min (y + ht) (height d) - max 0 y) c"
  using assms by (simp add: fill_rect_def Let_def max_def min_def)

lemma clamped_rect:
  assumes "in_bounds d px py"
  shows "in_rect (max 0 x) (max 0 y)
             (min (x + wd) (width d) - max 0 x) (min (y + ht) (height d) - max 0 y) px py
         \<longleftrightarrow> in_rect x y wd ht px py"
  using assms by (auto simp add: in_rect_def in_bounds_def)

lemma fill_rect_get:
  assumes "store_invariant d" "in_bounds d px py"
  shows "fb_get_pixel (fill_rect d x y wd ht c) px py
         = (if 0 < wd \<and> 0 < ht \<and> in_rect x y wd ht px py then Some (c mod 65536)
            else fb_get_pixel d px py)"
proof (cases "0 < wd \<and> 0 < ht")
  case True
  thus ?thesis
    using fb_fill_rect_get [OF assms] clamped_rect [OF assms(2)]
    by (simp add: fill_rect_clamped)
next
  case False
  thus ?thesis by (auto simp add: fill_rect_def)
qed

lemma fill_rect_bytes:
  assumes "store_invariant d" "k < length (buffer d)"
    "\<not> (\<exists>px py. in_bounds d px py \<and> in_rect x y wd ht px py
           \<and> (k = fb_offset d px py \<or> k = fb_offset d px py + 1))"
  shows "buffer (fill_rect d x y wd ht c) ! k = buffer d ! k"
proof (cases "0 < wd \<and> 0 < ht")
  case True
  have "\<not> (\<exists>px py. in_bounds d px py
            \<and> in_rect (max 0 x) (max 0 y)
                (min (x + wd) (width d) - max 0 x) (min (y + ht) (height d) - max 0 y) px py
            \<and> (k = fb_offset d px py \<or> k = fb_offset d px py + 1))"
    using assms(3) clamped_rect [of d _ _ x y wd ht] by blast
  thus ?thesis
    using True fb_fill_rect_bytes [OF assms(1,2)] by (simp add: fill_rect_clamped)
next
  case False
  thus ?thesis by (auto simp add: fill_rect_def)
qed

lemma fill_rect_same:
  "\<exists>B. fill_rect d x y wd ht c = d\<lparr>buffer := B\<rparr> \<and> length B = length (buffer d)"
proof (cases "0 < wd \<and> 0 < ht")
  case True
  thus ?thesis using fb_fill_rect_same by (simp add: fill_rect_clamped)
next
  case False
  hence "fill_rect d x y wd ht c = d" by (auto simp add: fill_rect_def)
  thus ?thesis by (intro exI [of _ "buffer d"]) simp
qed


text \<open>
  Claim C3.  On a driver whose buffer has the invariant length: \<open>fill_rect\<close> with w \<le> 0
  or h \<le> 0 returns the driver as it was; in every case only the buffer can differ, and
  its length is kept; a pixel of the buffer reads as the colour (its low 16 bits) exactly
  when it lies in \<open>[x, x + w) \<times> [y, y + h)\<close>, and as before otherwise; every byte
  that belongs to no buffer pixel of that rectangle is unchanged.  So what is written is
  the intersection of the rectangle with the buffer, and on a 240 by 320 buffer
  \<open>fill_rect(-5, -5, 10, 10, c)\<close> changes the pixels (0, 0) to (4, 4) only.
\<close>

theorem fill_rect_clipping:
  "store_invariant d \<longrightarrow>
     (wd \<le> 0 \<or> ht \<le> 0 \<longrightarrow> fill_rect d x y wd ht c = d)
     \<and> (\<exists>B. fill_rect d x y wd ht c = d\<lparr>buffer := B\<rparr> \<and> length B = length (buffer d))
     \<and> (\<forall>px py. in_bounds d px py \<longrightarrow>
           fb_get_pixel (fill_rect d x y wd ht c) px py
           = (if in_rect x y wd ht px py then Some (c mod 65536) else fb_get_pixel d px py))
     \<and> (\<forall>k. k < length (buffer d)
              \<and> \<not> (\<exists>px py. in_bounds d px py \<and> in_rect x y wd ht px py
                        \<and> (k = fb_offset d px py \<or> k = fb_offset d px py + 1))
           \<longrightarrow> buffer (fill_rect d x y wd ht c) ! k = buffer d ! k)
     \<and> (width d = 240 \<and> height d = 320 \<longrightarrow>
           (\<forall>px py. in_bounds d px py \<longrightarrow>
              fb_get_pixel (fill_rect d (- 5) (- 5) 10 10 c) px py
              = (if px \<le> 4 \<and> py \<le> 4 then Some (c mod 65536) else fb_get_pixel d px py)))"
proof (intro impI conjI)
  assume "wd \<le> 0 \<or> ht \<le> 0"
  thus "fill_rect d x y wd ht c = d" by (simp add: fill_rect_def)
next
  show "\<exists>B. fill_rect d x y wd ht c = d\<lparr>buffer := B\<rparr> \<and> length B = length (buffer d)"
    by (rule fill_rect_same)
next
  assume inv: "store_invariant d"
  show "\<forall>px py. in_bounds d px py \<longrightarrow>
           fb_get_pixel (fill_rect d x y wd ht c) px py
           = (if in_rect x y wd ht px py then Some (c mod 65536) else fb_get_pixel d px py)"
  proof (intro allI impI)
    fix px py assume b: "in_bounds d px py"
    have "in_rect x y wd ht px py \<Longrightarrow> 0 < wd \<and> 0 < ht" by (simp add: in_rect_def)
    thus "fb_get_pixel (fill_rect d x y wd ht c) px py
           = (if in_rect x y wd ht px py then Some (c mod 65536) else fb_get_pixel d px py)"
      using fill_rect_get [OF inv b, of x y wd ht c] by (cases "in_rect x y wd ht px py") simp_all
  qed
next
  assume inv: "store_invariant d"
  show "\<forall>k. k < length (buffer d)
              \<and> \<not> (\<exists>px py. in_bounds d px py \<and> in_rect x y wd ht px py
                        \<and> (k = fb_offset d px py \<or> k = fb_offset d px py + 1))
           \<longrightarrow> buffer (fill_rect d x y wd ht c) ! k = buffer d ! k"
  proof (intro allI impI)
    fix k
    assume a: "k < length (buffer d)
              \<and> \<not> (\<exists>px py. in_bounds d px py \<and> in_rect x y wd ht px py
                        \<and> (k = fb_offset d px py \<or> k = fb_offset d px py + 1))"
    show "buffer (fill_rect d x y wd ht c) ! k = buffer d ! k"
      by (rule fill_rect_bytes [OF inv conjunct1 [OF a] conjunct2 [OF a]])
  qed
next
  assume inv: "store_invariant d" and "width d = 240 \<and> height d = 320"
  show "\<forall>px py. in_bounds d px py \<longrightarrow>
              fb_get_pixel (fill_rect d (- 5) (- 5) 10 10 c) px py
              = (if px \<le> 4 \<and> py \<le> 4 then Some (c mod 65536) else fb_get_pixel d px py)"
  proof (intro allI impI)
    fix px py assume b: "in_bounds d px py"
    hence "in_rect (- 5) (- 5) 10 10 px py \<longleftrightarrow> px \<le> 4 \<and> py \<le> 4"
      by (auto simp add: in_rect_def in_bounds_def)
    thus "fb_get_pixel (fill_rect d (- 5) (- 5) 10 10 c) px py
              = (if px \<le> 4 \<and> py \<le> 4 then Some (c mod 65536) else fb_get_pixel d px py)"
      using fill_rect_get [OF inv b, of "- 5" "- 5" 10 10 c] by simp
  qed
qed

lemma fill_rect_example:
  "fill_rect (st_example True None) (- 1) (- 1) 2 2 0xFFFF
     = (st_example True None)\<lparr>buffer := [0xFF, 0xFF, 0x03, 0x04, 0x05, 0x06, 0x07, 0x08]\<rparr>"
  by code_simp

theorem fill_rect_clipping_witness:
  "store_invariant (st_example True None)
   \<and> fill_rect (st_example True None) 0 0 0 5 0xFFFF = st_example True None
   \<and> fill_rect (st_example True None) (- 1) (- 1) 2 2 0xFFFF
       = (st_example True None)\<lparr>buffer := [0xFF, 0xFF, 0x03, 0x04, 0x05, 0x06, 0x07, 0x08]\<rparr>
   \<and> fb_get_pixel (fill_rect (st_example True None) (- 1) (- 1) 2 2 0xFFFF) 0 0 = Some 0xFFFF
   \<and> buffer (fill_rect (st_example True None) (- 1) (- 1) 2 2 0xFFFF) ! 2
       = buffer (st_example True None) ! 2
   \<and> store_invariant st_reference
   \<and> width st_reference = 240 \<and> height st_reference = 320
   \<and> fb_get_pixel (fill_rect st_reference (- 5) (- 5) 10 10 0xF800) 4 4 = Some 0xF800
   \<and> fb_get_pixel (fill_rect st_reference (- 5) (- 5) 10 10 0xF800) 5 4 = Some 0"
proof -
  have inv: "store_invariant (st_example True None)"
    by (simp add: store_invariant_def st_example_def)
  have invr: "store_invariant st_reference"
    by (simp add: store_invariant_def st_reference_def)
  have wh: "width st_reference = 240 \<and> height st_reference = 320"
    by (simp add: st_reference_def)
  note e = fill_rect_clipping [of "st_example True None" 0 5 0 0 "0xFFFF", THEN mp, OF inv]
  note f = fill_rect_clipping [of "st_example True None" 2 2 "- 1" "- 1" "0xFFFF",
      THEN mp, OF inv]
  note r = fill_rect_clipping [of st_reference 1 1 0 0 "0xF800", THEN mp, OF invr]
  have e1: "fill_rect (st_example True None) 0 0 0 5 0xFFFF = st_example True None"
    using e [THEN conjunct1] by simp
  have b00: "in_bounds (st_example True None) 0 0"
    by (simp add: in_bounds_def st_example_def)
  have f1: "fb_get_pixel (fill_rect (st_example True None) (- 1) (- 1) 2 2 0xFFFF) 0 0
            = Some 0xFFFF"
    using f [THEN conjunct2, THEN conjunct2, THEN conjunct1, rule_format, OF b00]
    by (simp add: in_rect_def)
  have "\<not> (\<exists>px py. in_bounds (st_example True None) px py \<and> in_rect (- 1) (- 1) 2 2 px py
             \<and> (2 = fb_offset (st_example True None) px py
                 \<or> 2 = fb_offset (st_example True None) px py + 1))"
    by (auto simp add: in_bounds_def in_rect_def fb_offset_def st_example_def)
  hence f2: "buffer (fill_rect (st_example True None) (- 1) (- 1) 2 2 0xFFFF) ! 2
             = buffer (st_example True None) ! 2"
    using f [THEN conjunct2, THEN conjunct2, THEN conjunct2, THEN conjunct1, rule_format,
        of 2]
    by (simp add: st_example_def)
  have b44: "in_bounds st_reference 4 4" "in_bounds st_reference 5 4"
    by (simp_all add: in_bounds_def st_reference_def)
  note r5 = r [THEN conjunct2, THEN conjunct2, THEN conjunct2, THEN conjunct2, THEN mp,
      OF wh, rule_format]
  have r1: "fb_get_pixel (fill_rect st_reference (- 5) (- 5) 10 10 0xF800) 4 4 = Some 0xF800"
    using r5 [OF b44(1)] by simp
  have "fb_get_pixel st_reference 5 4 = Some 0"
    by (simp add: fb_get_pixel_def in_bounds_def fb_offset_def st_reference_def)
  hence r2: "fb_get_pixel (fill_rect st_reference (- 5) (- 5) 10 10 0xF800) 5 4 = Some 0"
    using r5 [OF b44(2)] by simp
  show ?thesis using inv invr wh e1 f1 f2 r1 r2 fill_rect_example by simp
qed


section \<open>What the operations leave alone\<close>

lemma same_pixels_refl: "same_pixels d d"
  by (simp add: same_pixels_def same_device_def same_store_def)

lemma same_pixels_trans: "same_pixels d s \<Longrightarrow> same_pixels s t \<Longrightarrow> same_pixels d t"
  by (simp add: same_pixels_def same_device_def same_store_def)

lemma same_device_trans: "same_device d s \<Longrightarrow> same_device s t \<Longrightarrow> same_device d t"
  by (simp add: same_device_def same_store_def)

lemma same_pixels_device: "same_pixels d s \<Longrightarrow> same_device d s"
  by (simp add: same_pixels_def)

lemma same_pixels_emit: "same_pixels d (emit d evs)"
  by (simp add: same_pixels_def same_device_def same_store_def emit_def)

lemma then_do_pixels:
  assumes "same_pixels d (final m)" "\<And>s. same_pixels d s \<Longrightarrow> same_pixels d (final (f s))"
  shows "same_pixels d (final (then_do m f))"
  using assms by (cases m) (simp_all add: then_do_def)

lemma then_do_device:
  assumes "same_device d (final m)" "\<And>s. same_device d s \<Longrightarrow> same_device d (final (f s))"
  shows "same_device d (final (then_do m f))"
  using assms by (cases m) (simp_all add: then_do_def)

lemma same_device_refl: "same_device d d"
  by (simp add: same_device_def same_store_def)

lemma write_cmd_keeps: "same_pixels d (final (write_cmd d c))"
  by (simp add: write_cmd_def Let_def same_pixels_def same_device_def same_store_def emit_def
      split: option.splits)

lemma write_data_keeps: "same_pixels d (final (write_data d bs))"
  by (simp add: write_data_def same_pixels_def same_device_def same_store_def emit_def)

lemma write_reg_keeps: "same_pixels d (final (write_reg d reg data))"
  unfolding write_reg_def
proof (rule then_do_pixels)
  show "same_pixels d (final (write_cmd d reg))" by (rule write_cmd_keeps)
next
  fix s assume s: "same_pixels d s"
  have "same_pixels s (final (if data \<noteq> [] then
                (case bytes_of data of None \<Rightarrow> Raised ValueError s
                 | Some bs \<Rightarrow> write_data s bs) else Returned s))"
    by (simp add: same_pixels_refl write_data_keeps split: option.splits)
  thus "same_pixels d (final (if data \<noteq> [] then
                (case bytes_of data of None \<Rightarrow> Raised ValueError s
                 | Some bs \<Rightarrow> write_data s bs) else Returned s))"
    by (rule same_pixels_trans [OF s])
qed

lemma xl_call_keeps: "same_pixels d (final (xl_call d pin v))"
  by (simp add: xl_call_def same_pixels_def same_device_def same_store_def emit_def
      split: option.splits outcome.splits)

lemma sleep_ms_keeps: "same_pixels d (final (sleep_ms d ms))"
  by (simp add: sleep_ms_def same_pixels_emit)

lemma pulse_keeps:
  "same_pixels d (final (then_do (xl_call d pin_rst False) (\<lambda>d1.
        then_do (sleep_ms d1 a) (\<lambda>d2.
        then_do (xl_call d2 pin_rst True) (\<lambda>d3.
        sleep_ms d3 b)))))"
  by (intro then_do_pixels same_pixels_trans [OF _ xl_call_keeps]
      same_pixels_trans [OF _ sleep_ms_keeps] same_pixels_refl | assumption)+

lemma reset_keeps: "same_pixels d (final (reset d))"
  unfolding reset_def using pulse_keeps [of d 100 100] by (simp add: same_pixels_refl)

lemma set_backlight_keeps: "same_pixels d (final (set_backlight d on))"
  by (simp add: set_backlight_def xl_call_keeps same_pixels_emit)

lemma set_rotation_keeps: "same_pixels d (final (set_rotation d r))"
  using same_pixels_emit [of d]
  by (simp add: set_rotation_result same_pixels_def same_device_def same_store_def emit_def)

lemma set_window_keeps: "same_pixels d (final (set_window d x y wd ht))"
  by (simp add: set_window_trace same_pixels_emit)

lemma send_chunks_keeps: "same_pixels d (final (send_chunks c d buf offs))"
proof (induction offs arbitrary: d)
  case Nil
  show ?case by (simp add: same_pixels_refl)
next
  case (Cons i offs)
  show ?case
  proof (cases "swap_pairs buf i (replicate (min (i + c) (length buf) - i) 0)
                  (range_step (min (i + c) (length buf) - i) 2)")
    case None
    thus ?thesis by (simp add: Let_def same_pixels_refl)
  next
    case (Some chunk)
    have "same_pixels d (final (send_chunks c (emit d [SpiWrite chunk]) buf offs))"
      by (rule same_pixels_trans [OF same_pixels_emit Cons])
    thus ?thesis using Some by (simp add: Let_def)
  qed
qed

lemma show_chunked_keeps: "same_pixels d (final (show_chunked c d))"
proof -
  define body where "body s = (if \<not> has_cs s then Raised TypeError s
           else let d2 = emit s [Cs False, Dc True]
                in if c = 0 then Raised ValueError d2
                   else then_do (send_chunks c d2 (buffer d) (range_step (length (buffer d)) c))
                          (\<lambda>d3. Returned (emit d3 [Cs True])))" for s
  have inner: "same_pixels s (final (body s))" for s
  proof -
    have "same_pixels (emit s [Cs False, Dc True])
            (final (then_do (send_chunks c (emit s [Cs False, Dc True]) (buffer d)
                              (range_step (length (buffer d)) c))
                      (\<lambda>d3. Returned (emit d3 [Cs True]))))"
      by (intro then_do_pixels send_chunks_keeps)
         (simp add: same_pixels_trans [OF _ same_pixels_emit])
    hence "same_pixels s
            (final (then_do (send_chunks c (emit s [Cs False, Dc True]) (buffer d)
                              (range_step (length (buffer d)) c))
                      (\<lambda>d3. Returned (emit d3 [Cs True]))))"
      by (rule same_pixels_trans [OF same_pixels_emit])
    thus ?thesis by (simp add: body_def Let_def same_pixels_refl same_pixels_emit)
  qed
  have outer: "same_pixels d (final (body s))" if "same_pixels d s" for s
    by (rule same_pixels_trans [OF that inner])
  have "show_chunked c d = then_do (set_window d 0 0 (width d) (height d)) body"
    unfolding show_chunked_def Let_def body_def ..
  thus ?thesis using then_do_pixels [OF set_window_keeps outer] by simp
qed

lemma show_display_keeps: "same_pixels d (final (show_display d))"
  unfolding show_display_def by (rule show_chunked_keeps)

lemma pixel_keeps: "same_device d (pixel d x y c)"
  by (simp add: pixel_def fb_pixel_def same_device_def same_store_def)

lemma fill_rect_keeps: "same_device d (fill_rect d x y wd ht c)"
proof -
  obtain B where "fill_rect d x y wd ht c = d\<lparr>buffer := B\<rparr>" "length B = length (buffer d)"
    using fill_rect_same by blast
  thus ?thesis by (simp add: same_device_def same_store_def)
qed

lemma fill_keeps: "same_device d (fill d c)"
proof -
  obtain B where "fill d c = d\<lparr>buffer := B\<rparr>" "length B = length (buffer d)"
    unfolding fill_def using fb_fill_rect_same by blast
  thus ?thesis by (simp add: same_device_def same_store_def)
qed

lemma init_display_keeps: "same_device d (final (init_display d rot))"
proof -
  note step = same_device_trans [OF _ same_pixels_device]
  have first: "same_device d (final (if use_xl9555 d then
                then_do (xl_call d pin_rst False) (\<lambda>a.
                then_do (sleep_ms a 10) (\<lambda>b.
                then_do (xl_call b pin_rst True) (\<lambda>c.
                sleep_ms c 120)))
              else Returned d))"
    using pulse_keeps [of d 10 120]
    by (simp add: same_pixels_device same_pixels_refl)
  have last: "\<And>s. same_device d s \<Longrightarrow> same_device d (final (show_display (fill s COLOR_BLACK)))"
    by (rule same_device_trans [OF same_device_trans [OF _ fill_keeps]
          same_pixels_device [OF show_display_keeps]])
  show ?thesis
    unfolding init_display_def
    by (intro then_do_device first last step [OF _ write_cmd_keeps] step [OF _ sleep_ms_keeps]
        step [OF _ write_reg_keeps] step [OF _ set_rotation_keeps]
        step [OF _ set_backlight_keeps] | assumption)+
qed

lemma construct_keeps:
  "store_invariant (final (construct cs wd ht rot xl))
   \<and> buffer_allocs (final (construct cs wd ht rot xl)) = (if wd * ht * 2 < 0 then 0 else 1)
   \<and> width (final (construct cs wd ht rot xl)) = wd
   \<and> height (final (construct cs wd ht rot xl)) = ht
   \<and> has_cs (final (construct cs wd ht rot xl)) = cs"
proof (cases "wd * ht * 2 < 0")
  case True
  thus ?thesis by (simp add: construct_def Let_def store_invariant_def)
next
  case False
  let ?d2 = "\<lparr>width = wd, height = ht, has_cs = cs,
               buffer = replicate (nat (wd * ht * 2)) 0, buffer_allocs = 1,
               xl9555_obj = xl, rotation = 0, w = 0, h = 0,
               trace = (if cs then [CsInit] else []) @ [DcInit]\<rparr>"
  have c: "construct cs wd ht rot xl = init_display ?d2 rot"
    using False by (simp add: construct_def Let_def)
  have "same_device ?d2 (final (init_display ?d2 rot))" by (rule init_display_keeps)
  thus ?thesis
    using False unfolding c
    by (simp add: same_device_def same_store_def store_invariant_def)
qed


lemma same_store_invariant:
  "store_invariant d \<Longrightarrow> same_store d s \<Longrightarrow> store_invariant s"
  by (simp add: store_invariant_def same_store_def)

lemma offset_formula:
  assumes "in_bounds d x y"
  shows "fb_offset d x y = (nat y * nat (width d) + nat x) * 2"
proof -
  have "0 \<le> x" "0 \<le> y" "0 \<le> width d" using assms by (simp_all add: in_bounds_def)
  hence "nat ((y * width d + x) * 2) = (nat y * nat (width d) + nat x) * 2"
    by (simp add: nat_mult_distrib nat_add_distrib)
  thus ?thesis by (simp add: fb_offset_def)
qed

text \<open>
  Claim C9.  The constructor leaves a buffer of length width * height * 2, bound once
  (it raises before allocating when that size is negative).  No operation rebinds or
  resizes it or changes the physical size: \<open>pixel\<close>, \<open>fill_rect\<close>, \<open>fill\<close> and
  \<open>init_display\<close> keep the store, and \<open>show\<close>, \<open>set_rotation\<close>, \<open>set_window\<close>,
  \<open>reset\<close> and \<open>set_backlight\<close> keep its contents too, whether they return or raise; so
  the length invariant holds after each of them.  Pixel (x, y) of the buffer lives at
  byte offset (y * width + x) * 2, inside the buffer, low byte first.
\<close>

theorem pixel_store_invariant:
  "store_invariant (final (construct cs wd ht rot xl))
   \<and> buffer_allocs (final (construct cs wd ht rot xl)) \<le> 1
   \<and> (0 \<le> wd * ht * 2 \<longrightarrow>
         buffer_allocs (final (construct cs wd ht rot xl)) = 1
         \<and> length (buffer (final (construct cs wd ht rot xl))) = nat (wd * ht * 2))
   \<and> same_store d (pixel d x y c)
   \<and> same_store d (fill_rect d x y a b c)
   \<and> same_store d (fill d c)
   \<and> same_pixels d (final (show_display d))
   \<and> same_pixels d (final (set_rotation d r))
   \<and> same_pixels d (final (set_window d x y a b))
   \<and> same_pixels d (final (reset d))
   \<and> same_pixels d (final (set_backlight d on))
   \<and> same_store d (final (init_display d r))
   \<and> (\<forall>s. store_invariant d \<and> same_store d s \<longrightarrow> store_invariant s)
   \<and> (store_invariant d \<and> in_bounds d x y \<longrightarrow>
         fb_offset d x y = (nat y * nat (width d) + nat x) * 2
         \<and> fb_offset d x y + 1 < length (buffer d)
         \<and> buffer (pixel d x y c) ! fb_offset d x y = word_of_int c
         \<and> buffer (pixel d x y c) ! (fb_offset d x y + 1) = word_of_int (c div 256)
         \<and> fb_get_pixel d x y
             = Some (uint (buffer d ! (fb_offset d x y + 1)) * 256
                     + uint (buffer d ! fb_offset d x y)))"
proof -
  note k = construct_keeps [of cs wd ht rot xl]
  have c1: "store_invariant (final (construct cs wd ht rot xl))" using k by simp
  have c2: "buffer_allocs (final (construct cs wd ht rot xl)) \<le> 1" using k by simp
  have c3: "0 \<le> wd * ht * 2 \<longrightarrow>
         buffer_allocs (final (construct cs wd ht rot xl)) = 1
         \<and> length (buffer (final (construct cs wd ht rot xl))) = nat (wd * ht * 2)"
    using k by (simp add: store_invariant_def)
  have p: "same_store d (pixel d x y c)" using pixel_keeps by (simp add: same_device_def)
  have fr: "same_store d (fill_rect d x y a b c)"
    using fill_rect_keeps by (simp add: same_device_def)
  have fl: "same_store d (fill d c)" using fill_keeps by (simp add: same_device_def)
  have ini: "same_store d (final (init_display d r))"
    using init_display_keeps by (simp add: same_device_def)
  have inv: "\<forall>s. store_invariant d \<and> same_store d s \<longrightarrow> store_invariant s"
    using same_store_invariant by blast
  have lay: "store_invariant d \<and> in_bounds d x y \<longrightarrow>
         fb_offset d x y = (nat y * nat (width d) + nat x) * 2
         \<and> fb_offset d x y + 1 < length (buffer d)
         \<and> buffer (pixel d x y c) ! fb_offset d x y = word_of_int c
         \<and> buffer (pixel d x y c) ! (fb_offset d x y + 1) = word_of_int (c div 256)
         \<and> fb_get_pixel d x y
             = Some (uint (buffer d ! (fb_offset d x y + 1)) * 256
                     + uint (buffer d ! fb_offset d x y))"
  proof
    assume a: "store_invariant d \<and> in_bounds d x y"
    hence i: "store_invariant d" and b: "in_bounds d x y" by simp_all
    note o = offset_in_store [OF i b]
    have px: "pixel d x y c = fb_pixel d x y c" using b by (simp add: pixel_def in_bounds_def)
    have "buffer (pixel d x y c) ! fb_offset d x y = word_of_int c"
      using o b by (simp add: px fb_pixel_def nth_list_update)
    moreover have "buffer (pixel d x y c) ! (fb_offset d x y + 1) = word_of_int (c div 256)"
      using o b by (simp add: px fb_pixel_def nth_list_update drop_bit_8)
    ultimately show "fb_offset d x y = (nat y * nat (width d) + nat x) * 2
         \<and> fb_offset d x y + 1 < length (buffer d)
         \<and> buffer (pixel d x y c) ! fb_offset d x y = word_of_int c
         \<and> buffer (pixel d x y c) ! (fb_offset d x y + 1) = word_of_int (c div 256)
         \<and> fb_get_pixel d x y
             = Some (uint (buffer d ! (fb_offset d x y + 1)) * 256
                     + uint (buffer d ! fb_offset d x y))"
      using o(1) b offset_formula [OF b] by (simp add: fb_get_pixel_def)
  qed
  show ?thesis
    by (intro conjI c1 c2 c3 p fr fl ini inv lay show_display_keeps set_rotation_keeps
        set_window_keeps reset_keeps set_backlight_keeps)
qed

lemma construct_example:
  "buffer (final (construct True 2 2 0 None)) = [0, 0, 0, 0, 0, 0, 0, 0]
   \<and> raised (construct True 2 2 0 None) = None"
  by code_simp

theorem pixel_store_invariant_witness:
  "(0::int) \<le> 2 * 2 * 2
   \<and> buffer_allocs (final (construct True 2 2 0 None)) = 1
   \<and> buffer (final (construct True 2 2 0 None)) = [0, 0, 0, 0, 0, 0, 0, 0]
   \<and> store_invariant (st_example True None) \<and> in_bounds (st_example True None) 1 1
   \<and> same_store (st_example True None) (pixel (st_example True None) 1 1 0xF800)
   \<and> store_invariant (pixel (st_example True None) 1 1 0xF800)
   \<and> fb_offset (st_example True None) 1 1 = 6
   \<and> buffer (pixel (st_example True None) 1 1 0xF800) ! 6 = 0x00
   \<and> buffer (pixel (st_example True None) 1 1 0xF800) ! 7 = 0xF8"
proof -
  note t = pixel_store_invariant [of True 2 2 0 None "st_example True None" 1 1 "0xF800"]
  have i: "store_invariant (st_example True None)"
    by (simp add: store_invariant_def st_example_def)
  have b: "in_bounds (st_example True None) 1 1"
    by (simp add: in_bounds_def st_example_def)
  have w: "width (st_example True None) = 2" by (simp add: st_example_def)
  have s: "same_store (st_example True None) (pixel (st_example True None) 1 1 0xF800)"
    using t by blast
  have si: "store_invariant (pixel (st_example True None) 1 1 0xF800)"
    using t i s by blast
  have al: "buffer_allocs (final (construct True 2 2 0 None)) = 1" using t by simp
  have lay: "fb_offset (st_example True None) 1 1 = (nat 1 * nat (width (st_example True None)) + nat 1) * 2
         \<and> buffer (pixel (st_example True None) 1 1 0xF800) ! fb_offset (st_example True None) 1 1
             = word_of_int 0xF800
         \<and> buffer (pixel (st_example True None) 1 1 0xF800) ! (fb_offset (st_example True None) 1 1 + 1)
             = word_of_int (0xF800 div 256)"
    using t i b by blast
  hence o: "fb_offset (st_example True None) 1 1 = 6" by (simp add: w)
  have "buffer (pixel (st_example True None) 1 1 0xF800) ! 6 = 0x00"
    "buffer (pixel (st_example True None) 1 1 0xF800) ! 7 = 0xF8"
    using lay unfolding o by simp_all
  thus ?thesis using i b s si al o construct_example by simp
qed


section \<open>Refresh without a chip-select pin\<close>

lemma no_cs_keeps: "same_pixels d s \<Longrightarrow> \<not> has_cs d \<Longrightarrow> \<not> has_cs s"
  by (simp add: same_pixels_def same_device_def)

lemma no_cs_device: "same_device d s \<Longrightarrow> \<not> has_cs d \<Longrightarrow> \<not> has_cs s"
  by (simp add: same_device_def)

lemma then_do_no_cs:
  assumes "\<not> has_cs (final m)" "\<And>s. \<not> has_cs s \<Longrightarrow> \<not> has_cs (final (f s))"
  shows "\<not> has_cs (final (then_do m f))"
  using assms by (cases m) (simp_all add: then_do_def)

lemma then_do_raises:
  assumes "\<not> has_cs (final m)" "\<And>s. \<not> has_cs s \<Longrightarrow> raised (f s) \<noteq> None"
  shows "raised (then_do m f) \<noteq> None"
  using assms by (cases m) (simp_all add: then_do_def)

lemma show_display_no_cs:
  assumes "\<not> has_cs d"
  shows "show_display d = Raised TypeError (emit d
           (cmd_events False 0x2A @ data_events False (be16 0 @ be16 (0 + width d - 1))
            @ cmd_events False 0x2B @ data_events False (be16 0 @ be16 (0 + height d - 1))
            @ cmd_events False 0x2C))"
  using assms
  by (simp add: show_display_def show_chunked_def Let_def set_window_trace then_do_Returned
      has_cs_emit)

lemma init_reset_no_cs:
  assumes "\<not> has_cs d"
  shows "\<not> has_cs (final (if use_xl9555 d then
                then_do (xl_call d pin_rst False) (\<lambda>a.
                then_do (sleep_ms a 10) (\<lambda>b.
                then_do (xl_call b pin_rst True) (\<lambda>c.
                sleep_ms c 120)))
              else Returned d))"
  using no_cs_keeps [OF pulse_keeps [of d 10 120] assms] assms by simp

lemma init_display_no_cs:
  assumes "\<not> has_cs d"
  shows "raised (init_display d rot) \<noteq> None"
proof -
  have last: "\<And>s :: st7789v. \<not> has_cs s
                \<Longrightarrow> raised (show_display (fill s COLOR_BLACK)) \<noteq> None"
  proof -
    fix s :: st7789v assume "\<not> has_cs s"
    hence "\<not> has_cs (fill s COLOR_BLACK)" by (rule no_cs_device [OF fill_keeps])
    thus "raised (show_display (fill s COLOR_BLACK)) \<noteq> None"
      by (simp add: show_display_no_cs)
  qed
  show ?thesis
    unfolding init_display_def
    by (intro then_do_raises last init_reset_no_cs [OF assms]
        no_cs_keeps [OF write_cmd_keeps] no_cs_keeps [OF sleep_ms_keeps]
        no_cs_keeps [OF write_reg_keeps] no_cs_keeps [OF set_rotation_keeps]
        no_cs_keeps [OF set_backlight_keeps] | assumption)+
qed

lemma construct_no_cs: "raised (construct False wd ht rot xl) \<noteq> None"
proof (cases "wd * ht * 2 < 0")
  case True
  thus ?thesis by (simp add: construct_def Let_def)
next
  case False
  thus ?thesis by (simp add: construct_def Let_def init_display_no_cs)
qed

text \<open>
  Claim C8, where the code departs from it.  Without a chip-select pin a command write and
  a data write return, with no chip-select event in between; but \<open>show\<close> raises TypeError
  after the window commands, at its unguarded \<open>self.cs(0)\<close>, before any pixel data is
  sent.  \<open>init_display\<close> ends with \<open>show\<close>, so it cannot return either, and neither can
  the constructor, which calls it.
\<close>

theorem show_without_chip_select:
  "(\<not> has_cs d \<longrightarrow>
      write_cmd d ST7789_RAMWR = Returned (emit d [Dc False, SpiWrite [0x2C]])
      \<and> write_data d bs = Returned (emit d [Dc True, SpiWrite bs])
      \<and> show_display d = Raised TypeError (emit d
           ([Dc False, SpiWrite [0x2A], Dc True, SpiWrite (be16 0 @ be16 (0 + width d - 1)),
             Dc False, SpiWrite [0x2B], Dc True, SpiWrite (be16 0 @ be16 (0 + height d - 1)),
             Dc False, SpiWrite [0x2C]]))
      \<and> raised (init_display d rot) \<noteq> None)
   \<and> raised (construct False wd ht rot xl) \<noteq> None"
proof (intro conjI impI)
  assume n: "\<not> has_cs d"
  show "write_cmd d ST7789_RAMWR = Returned (emit d [Dc False, SpiWrite [0x2C]])"
    using n by (simp add: write_cmd_ok ST7789_RAMWR_def byte_val_def cmd_events_def)
  show "write_data d bs = Returned (emit d [Dc True, SpiWrite bs])"
    using n by (simp add: write_data_ok data_events_def)
  show "show_display d = Raised TypeError (emit d
           ([Dc False, SpiWrite [0x2A], Dc True, SpiWrite (be16 0 @ be16 (0 + width d - 1)),
             Dc False, SpiWrite [0x2B], Dc True, SpiWrite (be16 0 @ be16 (0 + height d - 1)),
             Dc False, SpiWrite [0x2C]]))"
    using show_display_no_cs [OF n] by (simp add: cmd_events_def data_events_def)
  show "raised (init_display d rot) \<noteq> None" using n by (rule init_display_no_cs)
next
  show "raised (construct False wd ht rot xl) \<noteq> None" by (rule construct_no_cs)
qed

lemma construct_no_cs_example:
  "raised (construct False 2 2 0 None) = Some TypeError"
  by code_simp

theorem show_without_chip_select_witness:
  "\<not> has_cs (st_example False None)
   \<and> raised (write_cmd (st_example False None) ST7789_RAMWR) = None
   \<and> raised (write_data (st_example False None) [0x05]) = None
   \<and> raised (show_display (st_example False None)) = Some TypeError
   \<and> trace (final (show_display (st_example False None)))
       = [Dc False, SpiWrite [0x2A], Dc True, SpiWrite [0x00, 0x00, 0x00, 0x01],
          Dc False, SpiWrite [0x2B], Dc True, SpiWrite [0x00, 0x00, 0x00, 0x01],
          Dc False, SpiWrite [0x2C]]
   \<and> raised (construct False 2 2 0 None) = Some TypeError"
proof -
  have n: "\<not> has_cs (st_example False None)" by (simp add: st_example_def)
  note t = show_without_chip_select [of "st_example False None" "[0x05]" 0 2 2 None,
      THEN conjunct1, THEN mp, OF n]
  have wh: "width (st_example False None) = 2" "height (st_example False None) = 2"
    "trace (st_example False None) = []"
    by (simp_all add: st_example_def)
  show ?thesis
    using n t construct_no_cs_example by (simp add: emit_def be16_def wh)
qed


end
